theory Spec2Isabelle
  imports Main
begin

section \<open>Data model of the record viewer's call tree\<close>

text \<open>
  The development follows \<^verbatim>\<open>record_viewer/src/utils.ts\<close>. The interfaces the file
  imports from \<^verbatim>\<open>./types\<close> are rendered as records and a datatype; their fields are
  the ones \<^verbatim>\<open>utils.ts\<close> reads and writes.
\<close>

subsection \<open>JavaScript numbers and dates\<close>

text \<open>
  The numbers that the comparisons of \<^verbatim>\<open>addCallToTree\<close> see: the time value of a
  date in milliseconds since the epoch, the literal \<^verbatim>\<open>Infinity\<close>, and \<^verbatim>\<open>NaN\<close>, the
  time value of an invalid date.
\<close>

datatype jsnum = Num int | Infinity | NaN

text \<open>\<^verbatim>\<open>a <= b\<close> on numbers: false as soon as one side is \<^verbatim>\<open>NaN\<close>.\<close>

fun js_le :: "jsnum \<Rightarrow> jsnum \<Rightarrow> bool" where
  "js_le NaN b = False"
| "js_le a NaN = False"
| "js_le (Num a) (Num b) = (a \<le> b)"
| "js_le (Num a) Infinity = True"
| "js_le Infinity (Num b) = False"
| "js_le Infinity Infinity = True"

text \<open>\<^verbatim>\<open>a >= b\<close> on numbers.\<close>

definition js_ge :: "jsnum \<Rightarrow> jsnum \<Rightarrow> bool" where
  "js_ge a b = js_le b a"

text \<open>A \<^verbatim>\<open>Date\<close> object: a valid instant, or the invalid date.\<close>

datatype Date = ValidDate int | InvalidDate

fun valueOf :: "Date \<Rightarrow> jsnum" where
  "valueOf (ValidDate ms) = Num ms"
| "valueOf InvalidDate = NaN"

text \<open>
  \<^verbatim>\<open>new Date(x)\<close> for a field \<^verbatim>\<open>x\<close> that is a string or \<^verbatim>\<open>undefined\<close>. The parsing
  of date strings belongs to the JavaScript runtime; it is the parameter \<open>parse\<close>,
  which returns \<open>None\<close> where the runtime yields the invalid date.
  \<^verbatim>\<open>new Date(undefined)\<close> is the invalid date.
\<close>

type_synonym date_parser = "string \<Rightarrow> int option"

fun new_Date :: "date_parser \<Rightarrow> string option \<Rightarrow> Date" where
  "new_Date parse None = InvalidDate"
| "new_Date parse (Some s) = (case parse s of None \<Rightarrow> InvalidDate | Some ms \<Rightarrow> ValidDate ms)"

subsection \<open>The raw record\<close>

text \<open>
  Modelled from the spec: the interface \<^verbatim>\<open>StackJSONRaw\<close> of \<^verbatim>\<open>./types\<close>, which is not
  among the sources. A stack cell, as far as \<^verbatim>\<open>getNameFromCell\<close> reads it: the path
  \<^verbatim>\<open>method.obj.cls.name\<close>.
\<close>

record ClassJSONRaw = name :: string

record ObjJSONRaw = cls :: ClassJSONRaw

record MethodJSONRaw = obj :: ObjJSONRaw

record StackJSONRaw = "method" :: MethodJSONRaw

text \<open>
  Modelled from the spec: the interfaces \<^verbatim>\<open>PerfJSONRaw\<close>, \<^verbatim>\<open>CallJSONRaw\<close> and
  \<^verbatim>\<open>RecordJSONRaw\<close> of \<^verbatim>\<open>./types\<close>, which is not among the sources. The timing
  fields are strings, and \<open>None\<close> is a field that is missing; \<^verbatim>\<open>perf\<close> itself is always
  there; \<^verbatim>\<open>args\<close> and \<^verbatim>\<open>rets\<close> are the payload, of any type.
\<close>

record PerfJSONRaw =
  start_time :: "string option"
  end_time :: "string option"

record 'p CallJSONRaw =
  stack :: "StackJSONRaw list"
  perf :: PerfJSONRaw
  args :: 'p
  rets :: 'p

record 'p RecordJSONRaw =
  perf :: PerfJSONRaw
  calls :: "'p CallJSONRaw list"

subsection \<open>The tree\<close>

text \<open>
  Modelled from the spec: the interface \<^verbatim>\<open>StackTreeNode\<close> of \<^verbatim>\<open>./types\<close>, which is not
  among the sources. Every field but \<^verbatim>\<open>name\<close> is optional; \<open>None\<close> is \<^verbatim>\<open>undefined\<close>.
\<close>

datatype 'p StackTreeNode =
  StackTreeNode
    (children: "'p StackTreeNode list option")
    (name: string)
    (startTime: "Date option")
    (endTime: "Date option")
    (raw: "'p CallJSONRaw option")

subsection \<open>Exceptions\<close>

text \<open>
  The one exception the code can raise on a record of the shape above: reading a
  property of \<^verbatim>\<open>undefined\<close>.
\<close>

datatype error = TypeError

section \<open>The functions of \<^verbatim>\<open>utils.ts\<close>\<close>

definition getNameFromCell :: "StackJSONRaw \<Rightarrow> string" where
  "getNameFromCell stackCell = ClassJSONRaw.name (cls (obj (method stackCell)))"

text \<open>
  \<^verbatim>\<open>getNameFromCell(stack[index])\<close>: the cell is \<^verbatim>\<open>undefined\<close> when the index is out
  of range, and reading \<^verbatim>\<open>.method\<close> of it raises.
\<close>

definition stackAt :: "StackJSONRaw list \<Rightarrow> nat \<Rightarrow> StackJSONRaw option" where
  "stackAt stk index = (if index < length stk then Some (stk ! index) else None)"

definition nameOfCell :: "StackJSONRaw option \<Rightarrow> error + string" where
  "nameOfCell stackCell =
     (case stackCell of None \<Rightarrow> Inl TypeError | Some cell \<Rightarrow> Inr (getNameFromCell cell))"

text \<open>The truthiness of an optional string: missing and empty strings are falsy.\<close>

definition truthy :: "string option \<Rightarrow> bool" where
  "truthy x = (case x of None \<Rightarrow> False | Some s \<Rightarrow> s \<noteq> [])"

text \<open>The pair is the object \<^verbatim>\<open>{ startTime, endTime }\<close>.\<close>

definition getStartAndEndTimes :: "date_parser \<Rightarrow> PerfJSONRaw \<Rightarrow> Date option \<times> Date option" where
  "getStartAndEndTimes parse p =
     (if truthy (start_time p) then Some (new_Date parse (start_time p)) else None,
      if truthy (end_time p) then Some (new_Date parse (end_time p)) else None)"

text \<open>The predicate handed to \<^verbatim>\<open>find\<close>, for a stack cell that is defined.\<close>

definition matchesCall ::
  "date_parser \<Rightarrow> StackJSONRaw \<Rightarrow> 'p CallJSONRaw \<Rightarrow> 'p StackTreeNode \<Rightarrow> bool" where
  "matchesCall parse stackCell call node \<longleftrightarrow>
     name node = getNameFromCell stackCell \<and>
     js_le (case startTime node of None \<Rightarrow> Num 0 | Some d \<Rightarrow> valueOf d)
           (valueOf (new_Date parse (start_time (CallJSONRaw.perf call)))) \<and>
     js_ge (case endTime node of None \<Rightarrow> Infinity | Some d \<Rightarrow> valueOf d)
           (valueOf (new_Date parse (end_time (CallJSONRaw.perf call))))"

text \<open>\<^verbatim>\<open>Array.prototype.find\<close>, returning the position of the element it finds.\<close>

primrec findIndex :: "('a \<Rightarrow> bool) \<Rightarrow> 'a list \<Rightarrow> nat option" where
  "findIndex P [] = None"
| "findIndex P (x # xs) = (if P x then Some 0 else map_option Suc (findIndex P xs))"

text \<open>
  \<^verbatim>\<open>tree.children.find(...)\<close>. The predicate is not run on an empty array; on any
  other array its first run reads the name of the stack cell, which raises when the
  cell is \<^verbatim>\<open>undefined\<close>.
\<close>

definition findMatchingNode ::
  "date_parser \<Rightarrow> 'p StackTreeNode list \<Rightarrow> StackJSONRaw option \<Rightarrow> 'p CallJSONRaw
     \<Rightarrow> error + nat option" where
  "findMatchingNode parse cs stackCell call =
     (case stackCell of
        Some cell \<Rightarrow> Inr (findIndex (matchesCall parse cell call) cs)
      | None \<Rightarrow> if cs = [] then Inr None else Inl TypeError)"

text \<open>The children array after \<^verbatim>\<open>if (!tree.children) tree.children = []\<close>.\<close>

definition kids :: "'p StackTreeNode \<Rightarrow> 'p StackTreeNode list" where
  "kids tree = (case children tree of None \<Rightarrow> [] | Some cs \<Rightarrow> cs)"

text \<open>The tree with its children array replaced.\<close>

definition withChildren :: "'p StackTreeNode \<Rightarrow> 'p StackTreeNode list \<Rightarrow> 'p StackTreeNode" where
  "withChildren tree cs = StackTreeNode (Some cs) (name tree) (startTime tree) (endTime tree) (raw tree)"

text \<open>
  \<^verbatim>\<open>addCallToTree\<close> mutates the tree it is given; here it returns the tree after the
  call. The matching node is a position in the children array, and the write through
  the reference becomes an update at that position.
\<close>

function addCallToTree ::
  "date_parser \<Rightarrow> 'p StackTreeNode \<Rightarrow> 'p CallJSONRaw \<Rightarrow> StackJSONRaw list \<Rightarrow> nat
     \<Rightarrow> error + 'p StackTreeNode" where
  "addCallToTree parse tree call stk index =
     (case findMatchingNode parse (kids tree) (stackAt stk index) call of
        Inl e \<Rightarrow> Inl e
      | Inr matchingNode \<Rightarrow>
          if int index = int (length stk) - 1 then
            (case matchingNode of
               Some j \<Rightarrow>
                 Inr (withChildren tree ((kids tree)[j :=
                        StackTreeNode (children (kids tree ! j)) (name (kids tree ! j))
                          (fst (getStartAndEndTimes parse (CallJSONRaw.perf call)))
                          (snd (getStartAndEndTimes parse (CallJSONRaw.perf call)))
                          (Some call)]))
             | None \<Rightarrow>
                 (case nameOfCell (stackAt stk index) of
                    Inl e \<Rightarrow> Inl e
                  | Inr n \<Rightarrow>
                      Inr (withChildren tree (kids tree @
                        [StackTreeNode None n
                          (fst (getStartAndEndTimes parse (CallJSONRaw.perf call)))
                          (snd (getStartAndEndTimes parse (CallJSONRaw.perf call)))
                          (Some call)]))))
          else
            (case matchingNode of
               None \<Rightarrow>
                 (case nameOfCell (stackAt stk index) of
                    Inl e \<Rightarrow> Inl e
                  | Inr n \<Rightarrow>
                      (case addCallToTree parse (StackTreeNode (Some []) n None None None)
                              call stk (index + 1) of
                         Inl e \<Rightarrow> Inl e
                       | Inr newNode \<Rightarrow> Inr (withChildren tree (kids tree @ [newNode]))))
             | Some j \<Rightarrow>
                 (case addCallToTree parse (kids tree ! j) call stk (index + 1) of
                    Inl e \<Rightarrow> Inl e
                  | Inr node \<Rightarrow> Inr (withChildren tree ((kids tree)[j := node])))))"
  by pat_completeness auto

termination addCallToTree
  by (relation "measure (\<lambda>(parse, tree, call, stk, index). length stk - index)")
     (auto simp: findMatchingNode_def nameOfCell_def stackAt_def split: if_splits option.splits)

text \<open>
  The loop of \<^verbatim>\<open>createTreeFromCalls\<close>: the calls in order, on the same tree; an
  exception ends the loop.
\<close>

fun addCalls ::
  "date_parser \<Rightarrow> 'p StackTreeNode \<Rightarrow> 'p CallJSONRaw list \<Rightarrow> error + 'p StackTreeNode" where
  "addCalls parse tree [] = Inr tree"
| "addCalls parse tree (call # rest) =
     (case addCallToTree parse tree call (stack call) 0 of
        Inl e \<Rightarrow> Inl e
      | Inr tree' \<Rightarrow> addCalls parse tree' rest)"

text \<open>The tree before the loop.\<close>

definition rootOf :: "date_parser \<Rightarrow> 'p RecordJSONRaw \<Rightarrow> 'p StackTreeNode" where
  "rootOf parse recordJSON =
     StackTreeNode (Some []) ''App''
       (Some (new_Date parse (start_time (RecordJSONRaw.perf recordJSON))))
       (Some (new_Date parse (end_time (RecordJSONRaw.perf recordJSON))))
       None"

definition createTreeFromCalls ::
  "date_parser \<Rightarrow> 'p RecordJSONRaw \<Rightarrow> error + 'p StackTreeNode" where
  "createTreeFromCalls parse recordJSON = addCalls parse (rootOf parse recordJSON) (calls recordJSON)"

section \<open>The same functions on a store of objects\<close>

text \<open>
  \<^verbatim>\<open>addCallToTree\<close> works on references: it writes into the node it is given and
  into the child that \<^verbatim>\<open>find\<close> returns, and it stores the reference of the call in
  \<^verbatim>\<open>raw\<close>. This section renders the same code on an explicit store, in which the tree
  nodes and the invocation records are objects with an address. The store is a list
  of objects; the address of an object is its index, and a new object is put at the
  end. A children array is held in the node that owns it, as the list of the
  addresses of the children.
\<close>

type_synonym ref = nat

text \<open>
  An object is an invocation record of the input or a tree node; the fields of a node
  are \<^verbatim>\<open>children\<close>, \<^verbatim>\<open>name\<close>, \<^verbatim>\<open>startTime\<close>, \<^verbatim>\<open>endTime\<close> and \<^verbatim>\<open>raw\<close>, in this order.
\<close>

datatype 'p obj =
    CallObj "'p CallJSONRaw"
  | NodeObj "ref list option" string "Date option" "Date option" "ref option"

text \<open>The store; an address is an index into it.\<close>

type_synonym 'p store = "'p obj list"

text \<open>
  Besides the exceptions of the code, the functions on the store can fail on an address
  that does not hold an object of the expected kind. The code cannot meet such an
  address; the store can be given one.
\<close>

datatype fault = Raised error | Dangling

definition getNode ::
  "'p store \<Rightarrow> ref \<Rightarrow> (ref list option \<times> string \<times> Date option \<times> Date option \<times> ref option) option" where
  "getNode h a =
     (if a < length h
      then (case h ! a of NodeObj cs n s e r \<Rightarrow> Some (cs, n, s, e, r) | CallObj c \<Rightarrow> None)
      else None)"

definition getCall :: "'p store \<Rightarrow> ref \<Rightarrow> 'p CallJSONRaw option" where
  "getCall h a =
     (if a < length h
      then (case h ! a of CallObj c \<Rightarrow> Some c | NodeObj cs n s e r \<Rightarrow> None)
      else None)"

text \<open>The addresses in a children field; none when the field is absent.\<close>

definition refsOf :: "ref list option \<Rightarrow> ref list" where
  "refsOf cs = (case cs of None \<Rightarrow> [] | Some as \<Rightarrow> as)"

text \<open>The predicate handed to \<^verbatim>\<open>find\<close>, on the fields of a node object.\<close>

definition matchesObj ::
  "date_parser \<Rightarrow> StackJSONRaw \<Rightarrow> 'p CallJSONRaw \<Rightarrow> string \<Rightarrow> Date option \<Rightarrow> Date option \<Rightarrow> bool" where
  "matchesObj parse stackCell call n s e \<longleftrightarrow>
     n = getNameFromCell stackCell \<and>
     js_le (case s of None \<Rightarrow> Num 0 | Some d \<Rightarrow> valueOf d)
           (valueOf (new_Date parse (start_time (CallJSONRaw.perf call)))) \<and>
     js_ge (case e of None \<Rightarrow> Infinity | Some d \<Rightarrow> valueOf d)
           (valueOf (new_Date parse (end_time (CallJSONRaw.perf call))))"

fun findRef ::
  "date_parser \<Rightarrow> 'p store \<Rightarrow> StackJSONRaw \<Rightarrow> 'p CallJSONRaw \<Rightarrow> ref list \<Rightarrow> fault + ref option" where
  "findRef parse h cell call [] = Inr None"
| "findRef parse h cell call (a # as) =
     (case getNode h a of
        None \<Rightarrow> Inl Dangling
      | Some (cs, n, s, e, r) \<Rightarrow>
          if matchesObj parse cell call n s e then Inr (Some a)
          else findRef parse h cell call as)"

definition findMatchingRef ::
  "date_parser \<Rightarrow> 'p store \<Rightarrow> ref list \<Rightarrow> StackJSONRaw option \<Rightarrow> 'p CallJSONRaw
     \<Rightarrow> fault + ref option" where
  "findMatchingRef parse h as stackCell call =
     (case stackCell of
        Some cell \<Rightarrow> findRef parse h cell call as
      | None \<Rightarrow> if as = [] then Inr None else Inl (Raised TypeError))"

text \<open>
  \<^verbatim>\<open>tree.children.push(node)\<close> for a node that is new: the node goes to the end of the
  store and its address to the end of the children array.
\<close>

definition push :: "'p store \<Rightarrow> ref \<Rightarrow> 'p obj \<Rightarrow> 'p store" where
  "push h tree node =
     (case getNode h tree of
        None \<Rightarrow> h
      | Some (cs, n, s, e, r) \<Rightarrow>
          (h @ [node])[tree := NodeObj (Some (refsOf cs @ [length h])) n s e r])"

text \<open>
  \<^verbatim>\<open>addCallToTree\<close> on the store. The first write is
  \<^verbatim>\<open>if (!tree.children) tree.children = []\<close>.
\<close>

function addCallToTree_store ::
  "date_parser \<Rightarrow> 'p store \<Rightarrow> ref \<Rightarrow> ref \<Rightarrow> StackJSONRaw list \<Rightarrow> nat \<Rightarrow> fault + 'p store" where
  "addCallToTree_store parse h tree call stk index =
     (case getNode h tree of
        None \<Rightarrow> Inl Dangling
      | Some (cs, n, s, e, r) \<Rightarrow>
     (case getCall h call of
        None \<Rightarrow> Inl Dangling
      | Some c \<Rightarrow>
     (case findMatchingRef parse (h[tree := NodeObj (Some (refsOf cs)) n s e r]) (refsOf cs)
             (stackAt stk index) c of
        Inl f \<Rightarrow> Inl f
      | Inr matchingNode \<Rightarrow>
          if int index = int (length stk) - 1 then
            (case matchingNode of
               Some m \<Rightarrow>
                 (case getNode (h[tree := NodeObj (Some (refsOf cs)) n s e r]) m of
                    None \<Rightarrow> Inl Dangling
                  | Some (mcs, mn, ms, me, mr) \<Rightarrow>
                      Inr ((h[tree := NodeObj (Some (refsOf cs)) n s e r])[m :=
                             NodeObj mcs mn
                               (fst (getStartAndEndTimes parse (CallJSONRaw.perf c)))
                               (snd (getStartAndEndTimes parse (CallJSONRaw.perf c)))
                               (Some call)]))
             | None \<Rightarrow>
                 (case nameOfCell (stackAt stk index) of
                    Inl x \<Rightarrow> Inl (Raised x)
                  | Inr nm \<Rightarrow>
                      Inr (push (h[tree := NodeObj (Some (refsOf cs)) n s e r]) tree
                            (NodeObj None nm
                               (fst (getStartAndEndTimes parse (CallJSONRaw.perf c)))
                               (snd (getStartAndEndTimes parse (CallJSONRaw.perf c)))
                               (Some call)))))
          else
            (case matchingNode of
               None \<Rightarrow>
                 (case nameOfCell (stackAt stk index) of
                    Inl x \<Rightarrow> Inl (Raised x)
                  | Inr nm \<Rightarrow>
                      addCallToTree_store parse
                        (push (h[tree := NodeObj (Some (refsOf cs)) n s e r]) tree
                           (NodeObj (Some []) nm None None None))
                        (length h) call stk (index + 1))
             | Some m \<Rightarrow>
                 addCallToTree_store parse (h[tree := NodeObj (Some (refsOf cs)) n s e r])
                   m call stk (index + 1)))))"
  by pat_completeness auto
termination
  apply (relation "measure (\<lambda>(parse, h, tree, call, stk, index). length stk - index)")
    apply (auto simp: findMatchingRef_def nameOfCell_def stackAt_def split: if_splits option.splits)
  done

fun addCalls_store ::
  "date_parser \<Rightarrow> 'p store \<Rightarrow> ref \<Rightarrow> ref list \<Rightarrow> fault + 'p store" where
  "addCalls_store parse h tree [] = Inr h"
| "addCalls_store parse h tree (call # rest) =
     (case getCall h call of
        None \<Rightarrow> Inl Dangling
      | Some c \<Rightarrow>
          (case addCallToTree_store parse h tree call (stack c) 0 of
             Inl f \<Rightarrow> Inl f
           | Inr h' \<Rightarrow> addCalls_store parse h' tree rest))"

text \<open>The record with its calls array holding the addresses of the invocation records.\<close>

record RecordObj =
  perfOf :: PerfJSONRaw
  callRefs :: "ref list"

definition createTreeFromCalls_store ::
  "date_parser \<Rightarrow> 'p store \<Rightarrow> RecordObj \<Rightarrow> fault + 'p store \<times> ref" where
  "createTreeFromCalls_store parse h recordJSON =
     (case addCalls_store parse
             (h @ [NodeObj (Some []) ''App''
                     (Some (new_Date parse (start_time (perfOf recordJSON))))
                     (Some (new_Date parse (end_time (perfOf recordJSON))))
                     None])
             (length h) (callRefs recordJSON) of
        Inl f \<Rightarrow> Inl f
      | Inr h' \<Rightarrow> Inr (h', length h))"

section \<open>Notions of the statements\<close>

subsection \<open>The test for a matching child\<close>

text \<open>
  The test for a matching child in the words of the specification: the names agree, the
  child's start is absent or not after the invocation's start, and the child's end is
  absent or not before the invocation's end.
\<close>

definition statedContainment ::
  "date_parser \<Rightarrow> StackJSONRaw \<Rightarrow> 'p CallJSONRaw \<Rightarrow> 'p StackTreeNode \<Rightarrow> bool" where
  "statedContainment parse f call c \<longleftrightarrow>
     name c = getNameFromCell f \<and>
     (case startTime c of
        None \<Rightarrow> True
      | Some d \<Rightarrow> js_le (valueOf d) (valueOf (new_Date parse (start_time (CallJSONRaw.perf call))))) \<and>
     (case endTime c of
        None \<Rightarrow> True
      | Some d \<Rightarrow> js_ge (valueOf d) (valueOf (new_Date parse (end_time (CallJSONRaw.perf call)))))"

text \<open>
  The same test as the code decides it: both dates of the invocation have to be valid,
  and an absent start of the child stands for the epoch.
\<close>

definition containment ::
  "date_parser \<Rightarrow> StackJSONRaw \<Rightarrow> 'p CallJSONRaw \<Rightarrow> 'p StackTreeNode \<Rightarrow> bool" where
  "containment parse f call c \<longleftrightarrow>
     name c = getNameFromCell f \<and>
     (case new_Date parse (start_time (CallJSONRaw.perf call)) of
        InvalidDate \<Rightarrow> False
      | ValidDate s \<Rightarrow>
          (case startTime c of
             None \<Rightarrow> 0 \<le> s
           | Some InvalidDate \<Rightarrow> False
           | Some (ValidDate cs) \<Rightarrow> cs \<le> s)) \<and>
     (case new_Date parse (end_time (CallJSONRaw.perf call)) of
        InvalidDate \<Rightarrow> False
      | ValidDate e \<Rightarrow>
          (case endTime c of
             None \<Rightarrow> True
           | Some InvalidDate \<Rightarrow> False
           | Some (ValidDate ce) \<Rightarrow> e \<le> ce))"

subsection \<open>Positions in the tree\<close>

text \<open>
  A position is the list of child indices leading from a node down to a descendant;
  its length is the depth of the descendant below the node.
\<close>

fun nodeAt :: "'p StackTreeNode \<Rightarrow> nat list \<Rightarrow> 'p StackTreeNode option" where
  "nodeAt t [] = Some t"
| "nodeAt t (i # p) = (if i < length (kids t) then nodeAt (kids t ! i) p else None)"

text \<open>
  Every node of \<open>t\<close> is still there in \<open>t'\<close>, at the same position and under the same
  name, and with the same start, end and \<^verbatim>\<open>raw\<close> unless its position is \<open>p\<close>.
\<close>

definition keepsNodes :: "'p StackTreeNode \<Rightarrow> 'p StackTreeNode \<Rightarrow> nat list \<Rightarrow> bool" where
  "keepsNodes t t' p \<longleftrightarrow>
     (\<forall>q n. nodeAt t q = Some n \<longrightarrow>
        (\<exists>n'. nodeAt t' q = Some n' \<and> name n' = name n \<and>
           (q \<noteq> p \<longrightarrow> startTime n' = startTime n \<and> endTime n' = endTime n \<and> raw n' = raw n)))"

text \<open>
  Every node of \<open>t'\<close> that was not there in \<open>t\<close> sits on the way to \<open>p\<close>, carries the
  name of the stack cell of its depth, and is a placeholder unless its position
  is \<open>p\<close>.
\<close>

definition freshNodes ::
  "'p StackTreeNode \<Rightarrow> 'p StackTreeNode \<Rightarrow> nat list \<Rightarrow> StackJSONRaw list \<Rightarrow> nat \<Rightarrow> bool" where
  "freshNodes t t' p stk index \<longleftrightarrow>
     (\<forall>q n'. nodeAt t' q = Some n' \<longrightarrow> nodeAt t q = None \<longrightarrow>
        (\<exists>k. 0 < k \<and> k \<le> length p \<and> q = take k p \<and>
             name n' = getNameFromCell (stk ! (index + k - 1))) \<and>
        (q \<noteq> p \<longrightarrow> startTime n' = None \<and> endTime n' = None \<and> raw n' = None))"

text \<open>The node at \<open>p\<close> is the one resolved by the call.\<close>

definition resolvedAt ::
  "date_parser \<Rightarrow> 'p StackTreeNode \<Rightarrow> nat list \<Rightarrow> 'p CallJSONRaw \<Rightarrow> StackJSONRaw list \<Rightarrow> bool" where
  "resolvedAt parse t' p call stk \<longleftrightarrow>
     (\<exists>leaf. nodeAt t' p = Some leaf \<and> raw leaf = Some call \<and>
        startTime leaf = fst (getStartAndEndTimes parse (CallJSONRaw.perf call)) \<and>
        endTime leaf = snd (getStartAndEndTimes parse (CallJSONRaw.perf call)) \<and>
        name leaf = getNameFromCell (last stk))"

text \<open>The number of nodes of a tree.\<close>

fun nodeCount :: "'p StackTreeNode \<Rightarrow> nat" where
  "nodeCount (StackTreeNode cs n s e r) =
     Suc (case cs of None \<Rightarrow> 0 | Some l \<Rightarrow> sum_list (map nodeCount l))"

text \<open>
  Below the root no node has an empty children array: the field is absent, or it holds
  at least one child.
\<close>

definition tidy :: "'p StackTreeNode \<Rightarrow> bool" where
  "tidy t \<longleftrightarrow> (\<forall>q n. q \<noteq> [] \<longrightarrow> nodeAt t q = Some n \<longrightarrow> children n \<noteq> Some [])"

text \<open>
  From \<open>t\<close> to \<open>t'\<close> the children array of every node is the array it was with at most
  one child more, at its end, or it is the array it was but for one child, which is
  replaced in its place by a node of the same name.
\<close>

definition appendsOnly :: "'p StackTreeNode \<Rightarrow> 'p StackTreeNode \<Rightarrow> bool" where
  "appendsOnly t t' \<longleftrightarrow>
     (\<forall>q n n'. nodeAt t q = Some n \<longrightarrow> nodeAt t' q = Some n' \<longrightarrow>
        (\<exists>added. length added \<le> 1 \<and> kids n' = kids n @ added) \<or>
        (\<exists>j c'. j < length (kids n) \<and> name c' = name (kids n ! j) \<and>
           kids n' = (kids n)[j := c']))"

subsection \<open>Trees in the store\<close>

text \<open>
  The objects from address \<open>f0\<close> on are tree nodes whose children lie from \<open>f0\<close> on as
  well and whose \<^verbatim>\<open>raw\<close> is absent or one of the addresses \<open>R\<close>.
\<close>

definition owned :: "nat \<Rightarrow> ref set \<Rightarrow> 'p store \<Rightarrow> bool" where
  "owned f0 R h \<longleftrightarrow>
     f0 \<le> length h \<and>
     (\<forall>x. f0 \<le> x \<longrightarrow> x < length h \<longrightarrow>
        (\<exists>cs n s e r. h ! x = NodeObj cs n s e r \<and>
           (\<forall>k\<in>set (refsOf cs). f0 \<le> k \<and> k < length h) \<and>
           (r = None \<or> (\<exists>k\<in>R. r = Some k))))"

text \<open>
  The \<^verbatim>\<open>raw\<close> of a node object against the \<^verbatim>\<open>raw\<close> of a tree: both absent, or the
  address holds the invocation record that the tree carries.
\<close>

definition rawAt :: "'p store \<Rightarrow> ref option \<Rightarrow> 'p CallJSONRaw option \<Rightarrow> bool" where
  "rawAt h rr r \<longleftrightarrow>
     (case rr of None \<Rightarrow> r = None | Some k \<Rightarrow> getCall h k \<noteq> None \<and> r = getCall h k)"

text \<open>
  The node object at address \<open>a\<close> and the objects below it form the tree \<open>t\<close>, and
  \<open>F\<close> is the set of their addresses: the fields agree, the children array lists the
  addresses of the subtrees in order, and no object is reached twice.
\<close>

inductive treeAt :: "'p store \<Rightarrow> ref \<Rightarrow> 'p StackTreeNode \<Rightarrow> ref set \<Rightarrow> bool"
  for h :: "'p store" where
  node: "getNode h a = Some (aso, name t, startTime t, endTime t, rr) \<Longrightarrow>
     rawAt h rr (raw t) \<Longrightarrow>
     (aso = None) = (children t = None) \<Longrightarrow>
     length (refsOf aso) = length (kids t) \<Longrightarrow>
     (\<forall>i<length (kids t). treeAt h (refsOf aso ! i) (kids t ! i) (fp i)) \<Longrightarrow>
     (\<forall>i<length (kids t). a \<notin> fp i) \<Longrightarrow>
     (\<forall>i<length (kids t). \<forall>j<length (kids t). i \<noteq> j \<longrightarrow> fp i \<inter> fp j = {}) \<Longrightarrow>
     treeAt h a t (insert a (\<Union>i<length (kids t). fp i))"

section \<open>Example records\<close>

text \<open>
  A stack cell with a given class name, and a fragment of the runtime's date parser:
  six ISO instants with their time values in milliseconds; every other string is
  taken as unparseable.
\<close>

definition frame :: "string \<Rightarrow> StackJSONRaw" where
  "frame n = \<lparr>method = \<lparr>obj = \<lparr>cls = \<lparr>ClassJSONRaw.name = n\<rparr>\<rparr>\<rparr>\<rparr>"

definition isoClock :: date_parser where
  "isoClock = map_of
     [(''1970-01-01T00:00:00.000Z'', 0),
      (''1970-01-01T00:00:00.002Z'', 2),
      (''1970-01-01T00:00:00.005Z'', 5),
      (''1970-01-01T00:00:00.008Z'', 8),
      (''1970-01-01T00:00:00.010Z'', 10),
      (''1969-12-31T23:59:59.000Z'', - 1000)]"

definition interval :: "string \<Rightarrow> string \<Rightarrow> PerfJSONRaw" where
  "interval s e = \<lparr>start_time = Some s, end_time = Some e\<rparr>"

text \<open>A run whose only invocation has an empty stack.\<close>

definition emptyStackRun :: "unit RecordJSONRaw" where
  "emptyStackRun =
     \<lparr>perf = interval ''1970-01-01T00:00:00.000Z'' ''1970-01-01T00:00:00.010Z'',
      calls = [\<lparr>stack = [],
                perf = interval ''1970-01-01T00:00:00.002Z'' ''1970-01-01T00:00:00.008Z'',
                args = (), rets = ()\<rparr>]\<rparr>"

text \<open>
  The scenario of two nested invocations: \<^verbatim>\<open>retriever\<close> over 0 to 10, and
  \<^verbatim>\<open>get_context\<close> under it over 2 to 8.
\<close>

definition retrieverCall :: "unit CallJSONRaw" where
  "retrieverCall =
     \<lparr>stack = [frame ''retriever''],
      perf = interval ''1970-01-01T00:00:00.000Z'' ''1970-01-01T00:00:00.010Z'',
      args = (), rets = ()\<rparr>"

definition getContextCall :: "unit CallJSONRaw" where
  "getContextCall =
     \<lparr>stack = [frame ''retriever'', frame ''get_context''],
      perf = interval ''1970-01-01T00:00:00.002Z'' ''1970-01-01T00:00:00.008Z'',
      args = (), rets = ()\<rparr>"

definition nestedRun :: "unit RecordJSONRaw" where
  "nestedRun =
     \<lparr>perf = interval ''1970-01-01T00:00:00.000Z'' ''1970-01-01T00:00:00.010Z'',
      calls = [retrieverCall, getContextCall]\<rparr>"

text \<open>
  A placeholder node, invocations without a start and from before the epoch, and a
  closed node.
\<close>

definition placeholder :: "string \<Rightarrow> unit StackTreeNode" where
  "placeholder n = StackTreeNode (Some []) n None None None"

definition unstartedCall :: "unit CallJSONRaw" where
  "unstartedCall =
     \<lparr>stack = [frame ''retriever''],
      perf = \<lparr>start_time = None, end_time = Some ''1970-01-01T00:00:00.010Z''\<rparr>,
      args = (), rets = ()\<rparr>"

definition preEpochCall :: "unit CallJSONRaw" where
  "preEpochCall =
     \<lparr>stack = [frame ''retriever''],
      perf = interval ''1969-12-31T23:59:59.000Z'' ''1970-01-01T00:00:00.010Z'',
      args = (), rets = ()\<rparr>"

definition closedRetriever :: "unit StackTreeNode" where
  "closedRetriever =
     StackTreeNode None ''retriever'' (Some (ValidDate 0)) (Some (ValidDate 10)) (Some retrieverCall)"

text \<open>The trees of the nested scenario after its first and after its second call.\<close>

definition retrieverTree :: "unit StackTreeNode" where
  "retrieverTree =
     StackTreeNode (Some [closedRetriever]) ''App'' (Some (ValidDate 0)) (Some (ValidDate 10)) None"

definition nestedTree :: "unit StackTreeNode" where
  "nestedTree =
     StackTreeNode
       (Some [StackTreeNode
               (Some [StackTreeNode None ''get_context''
                       (Some (ValidDate 2)) (Some (ValidDate 8)) (Some getContextCall)])
               ''retriever'' (Some (ValidDate 0)) (Some (ValidDate 10)) (Some retrieverCall)])
       ''App'' (Some (ValidDate 0)) (Some (ValidDate 10)) None"

text \<open>
  A run whose only invocation has no timing and an empty stack, and a run whose only
  invocation has no start.
\<close>

definition untimedEmptyRun :: "unit RecordJSONRaw" where
  "untimedEmptyRun =
     \<lparr>perf = interval ''1970-01-01T00:00:00.000Z'' ''1970-01-01T00:00:00.010Z'',
      calls = [\<lparr>stack = [], perf = \<lparr>start_time = None, end_time = None\<rparr>,
                args = (), rets = ()\<rparr>]\<rparr>"

definition unstartedRun :: "unit RecordJSONRaw" where
  "unstartedRun =
     \<lparr>perf = interval ''1970-01-01T00:00:00.000Z'' ''1970-01-01T00:00:00.010Z'',
      calls = [unstartedCall]\<rparr>"

text \<open>A root whose only child is a placeholder.\<close>

definition placeholderTree :: "unit StackTreeNode" where
  "placeholderTree = StackTreeNode (Some [placeholder ''retriever'']) ''App'' None None None"

text \<open>A run without calls.\<close>

definition uncalledRun :: "unit RecordJSONRaw" where
  "uncalledRun =
     \<lparr>perf = interval ''1970-01-01T00:00:00.002Z'' ''1970-01-01T00:00:00.008Z'', calls = []\<rparr>"

text \<open>The store and the record of the nested scenario, the two invocations at 0 and 1.\<close>

definition nestedStore :: "unit store" where
  "nestedStore = [CallObj retrieverCall, CallObj getContextCall]"

definition nestedRecord :: RecordObj where
  "nestedRecord =
     \<lparr>perfOf = interval ''1970-01-01T00:00:00.000Z'' ''1970-01-01T00:00:00.010Z'',
      callRefs = [0, 1]\<rparr>"

text \<open>The store that the call on the nested scenario leaves behind.\<close>

definition nestedStoreAfter :: "unit store" where
  "nestedStoreAfter =
     nestedStore @
       [NodeObj (Some [3]) ''App'' (Some (ValidDate 0)) (Some (ValidDate 10)) None,
        NodeObj (Some [4]) ''retriever'' (Some (ValidDate 0)) (Some (ValidDate 10)) (Some 0),
        NodeObj None ''get_context'' (Some (ValidDate 2)) (Some (ValidDate 8)) (Some 1)]"

section \<open>Properties\<close>

subsection \<open>The cases of \<^verbatim>\<open>addCallToTree\<close>\<close>

declare addCallToTree.simps [simp del]

lemma error_is_TypeError: "(e :: error) = TypeError"
  by (cases e)

lemma addCallToTree_undefined_cell:
  "length stk \<le> index \<Longrightarrow> addCallToTree parse tree call stk index = Inl TypeError"
  by (subst addCallToTree.simps)
     (auto simp: findMatchingNode_def stackAt_def nameOfCell_def split: sum.splits option.splits)

lemma addCallToTree_leaf_match:
  "Suc index = length stk \<Longrightarrow>
   findIndex (matchesCall parse (stk ! index) call) (kids tree) = Some j \<Longrightarrow>
   addCallToTree parse tree call stk index =
     Inr (withChildren tree ((kids tree)[j :=
            StackTreeNode (children (kids tree ! j)) (name (kids tree ! j))
              (fst (getStartAndEndTimes parse (CallJSONRaw.perf call)))
              (snd (getStartAndEndTimes parse (CallJSONRaw.perf call)))
              (Some call)]))"
  by (subst addCallToTree.simps)
     (auto simp: findMatchingNode_def stackAt_def nameOfCell_def split: sum.splits option.splits)

lemma addCallToTree_leaf_new:
  "Suc index = length stk \<Longrightarrow>
   findIndex (matchesCall parse (stk ! index) call) (kids tree) = None \<Longrightarrow>
   addCallToTree parse tree call stk index =
     Inr (withChildren tree (kids tree @
            [StackTreeNode None (getNameFromCell (stk ! index))
              (fst (getStartAndEndTimes parse (CallJSONRaw.perf call)))
              (snd (getStartAndEndTimes parse (CallJSONRaw.perf call)))
              (Some call)]))"
  by (subst addCallToTree.simps)
     (auto simp: findMatchingNode_def stackAt_def nameOfCell_def split: sum.splits option.splits)

lemma addCallToTree_inner_match:
  "Suc index < length stk \<Longrightarrow>
   findIndex (matchesCall parse (stk ! index) call) (kids tree) = Some j \<Longrightarrow>
   addCallToTree parse tree call stk index =
     (case addCallToTree parse (kids tree ! j) call stk (Suc index) of
        Inl e \<Rightarrow> Inl e
      | Inr node \<Rightarrow> Inr (withChildren tree ((kids tree)[j := node])))"
  by (subst addCallToTree.simps)
     (auto simp: findMatchingNode_def stackAt_def nameOfCell_def split: sum.splits option.splits)

lemma addCallToTree_inner_new:
  "Suc index < length stk \<Longrightarrow>
   findIndex (matchesCall parse (stk ! index) call) (kids tree) = None \<Longrightarrow>
   addCallToTree parse tree call stk index =
     (case addCallToTree parse
             (StackTreeNode (Some []) (getNameFromCell (stk ! index)) None None None)
             call stk (Suc index) of
        Inl e \<Rightarrow> Inl e
      | Inr newNode \<Rightarrow> Inr (withChildren tree (kids tree @ [newNode])))"
  by (subst addCallToTree.simps)
     (auto simp: findMatchingNode_def stackAt_def nameOfCell_def split: sum.splits option.splits)

lemma findIndex_Some_iff:
  "findIndex P xs = Some j \<longleftrightarrow> j < length xs \<and> P (xs ! j) \<and> (\<forall>i<j. \<not> P (xs ! i))"
proof (induction xs arbitrary: j)
  case Nil
  then show ?case by simp
next
  case (Cons x xs)
  show ?case
  proof (cases "P x")
    case True
    then show ?thesis by (cases j) auto
  next
    case False
    then show ?thesis
      by (cases j) (auto simp: Cons.IH less_Suc_eq_0_disj)
  qed
qed

lemma findIndex_None_iff: "findIndex P xs = None \<longleftrightarrow> (\<forall>x\<in>set xs. \<not> P x)"
  by (induction xs) auto

lemma addCallToTree_returns:
  "index < length stk \<Longrightarrow> \<exists>tree'. addCallToTree parse tree call stk index = Inr tree'"
proof (induction "length stk - index" arbitrary: index tree)
  case 0
  then show ?case by simp
next
  case (Suc d)
  show ?case
  proof (cases "Suc index = length stk")
    case True
    then show ?thesis
      by (cases "findIndex (matchesCall parse (stk ! index) call) (kids tree)")
         (simp_all add: addCallToTree_leaf_new addCallToTree_leaf_match)
  next
    case False
    with Suc.prems have lt: "Suc index < length stk" by simp
    from Suc.hyps(2) have d: "d = length stk - Suc index" by simp
    show ?thesis
    proof (cases "findIndex (matchesCall parse (stk ! index) call) (kids tree)")
      case None
      from Suc.hyps(1)[OF d lt,
          of "StackTreeNode (Some []) (getNameFromCell (stk ! index)) None None None"]
      show ?thesis by (auto simp: addCallToTree_inner_new[OF lt None])
    next
      case (Some j)
      from Suc.hyps(1)[OF d lt, of "kids tree ! j"]
      show ?thesis by (auto simp: addCallToTree_inner_match[OF lt Some])
    qed
  qed
qed

subsection \<open>The root\<close>

lemma addCallToTree_root:
  "addCallToTree parse tree call stk index = Inr tree' \<Longrightarrow>
   name tree' = name tree \<and> startTime tree' = startTime tree \<and>
   endTime tree' = endTime tree \<and> raw tree' = raw tree"
  by (subst (asm) addCallToTree.simps)
     (auto simp: withChildren_def split: sum.splits option.splits if_splits)

lemma addCalls_root:
  "addCalls parse tree cs = Inr tree' \<Longrightarrow>
   name tree' = name tree \<and> startTime tree' = startTime tree \<and>
   endTime tree' = endTime tree \<and> raw tree' = raw tree"
proof (induction cs arbitrary: tree)
  case Nil
  then show ?case by simp
next
  case (Cons a cs)
  then obtain t1 where t1: "addCallToTree parse tree a (stack a) 0 = Inr t1"
    and rest: "addCalls parse t1 cs = Inr tree'"
    by (auto split: sum.splits)
  from Cons.IH[OF rest] addCallToTree_root[OF t1] show ?case by simp
qed

lemma nestedRun_tree: "createTreeFromCalls isoClock nestedRun = Inr nestedTree"
  by (simp add: createTreeFromCalls_def nestedRun_def nestedTree_def rootOf_def isoClock_def
      interval_def retrieverCall_def getContextCall_def frame_def
      addCallToTree.simps findMatchingNode_def stackAt_def nameOfCell_def kids_def
      matchesCall_def getNameFromCell_def getStartAndEndTimes_def truthy_def js_ge_def
      withChildren_def)

text \<open>
  C3. Whenever the tree is returned, its root carries the dates made from the
  record's own \<^verbatim>\<open>perf.start_time\<close> and \<^verbatim>\<open>perf.end_time\<close>, has no \<^verbatim>\<open>raw\<close> and
  keeps the name \<^verbatim>\<open>App\<close>, whatever the calls are.
\<close>

theorem root_invariant:
  "createTreeFromCalls parse recordJSON = Inr tree \<Longrightarrow>
   startTime tree = Some (new_Date parse (start_time (RecordJSONRaw.perf recordJSON))) \<and>
   endTime tree = Some (new_Date parse (end_time (RecordJSONRaw.perf recordJSON))) \<and>
   raw tree = None \<and> name tree = ''App''"
  unfolding createTreeFromCalls_def
  by (drule addCalls_root) (simp add: rootOf_def)

theorem root_invariant_witness:
  "\<exists>tree. createTreeFromCalls isoClock nestedRun = Inr tree \<and>
     startTime tree = Some (ValidDate 0) \<and> endTime tree = Some (ValidDate 10) \<and>
     raw tree = None \<and> name tree = ''App''"
proof -
  from root_invariant[OF nestedRun_tree]
  have "startTime nestedTree = Some (ValidDate 0) \<and> endTime nestedTree = Some (ValidDate 10) \<and>
      raw nestedTree = None \<and> name nestedTree = ''App''"
    by (simp add: nestedRun_def interval_def isoClock_def)
  with nestedRun_tree show ?thesis by blast
qed

subsection \<open>Empty stacks\<close>

lemma addCalls_empty_stack:
  "c \<in> set cs \<Longrightarrow> stack c = [] \<Longrightarrow> addCalls parse tree cs = Inl TypeError"
proof (induction cs arbitrary: tree)
  case Nil
  then show ?case by simp
next
  case (Cons a cs)
  show ?case
  proof (cases "addCallToTree parse tree a (stack a) 0")
    case (Inl e)
    then show ?thesis by (simp add: error_is_TypeError[of e])
  next
    case (Inr tree')
    with Cons.prems have "a \<noteq> c"
      by (auto simp: addCallToTree_undefined_cell)
    with Cons.prems have "c \<in> set cs" by simp
    from Cons.IH[OF this Cons.prems(2)] Inr show ?thesis by simp
  qed
qed

text \<open>
  C4, as the code has it. A record with an invocation whose stack is empty makes
  \<^verbatim>\<open>createTreeFromCalls\<close> raise a \<^verbatim>\<open>TypeError\<close>: no tree is returned.
\<close>

theorem empty_stack_raises:
  "c \<in> set (calls recordJSON) \<Longrightarrow> stack c = [] \<Longrightarrow>
   createTreeFromCalls parse recordJSON = Inl TypeError"
  unfolding createTreeFromCalls_def by (rule addCalls_empty_stack)

theorem empty_stack_raises_witness:
  "hd (calls emptyStackRun) \<in> set (calls emptyStackRun) \<and>
   stack (hd (calls emptyStackRun)) = [] \<and>
   createTreeFromCalls isoClock emptyStackRun = Inl TypeError"
  using empty_stack_raises[of "hd (calls emptyStackRun)" emptyStackRun isoClock]
  by (simp add: emptyStackRun_def)

text \<open>
  C4 as stated fails: with the invocation the call raises, without it the bare root
  is returned.
\<close>

theorem empty_stack_counterexample:
  "createTreeFromCalls isoClock emptyStackRun = Inl TypeError \<and>
   createTreeFromCalls isoClock (emptyStackRun\<lparr>calls := []\<rparr>) =
     Inr (StackTreeNode (Some []) ''App'' (Some (ValidDate 0)) (Some (ValidDate 10)) None)"
  by (simp add: createTreeFromCalls_def emptyStackRun_def rootOf_def isoClock_def interval_def
      addCallToTree.simps findMatchingNode_def stackAt_def nameOfCell_def kids_def)

subsection \<open>The matching child\<close>

lemma js_le_NaN_right [simp]: "js_le a NaN = False"
  by (cases a) simp_all

lemma matchesCall_containment:
  "matchesCall parse f call c \<longleftrightarrow> containment parse f call c"
  by (cases "new_Date parse (start_time (CallJSONRaw.perf call))";
      cases "new_Date parse (end_time (CallJSONRaw.perf call))")
     (auto simp: matchesCall_def containment_def js_ge_def split: option.splits Date.splits)

text \<open>
  C1, as the code has it. For a stack index in range the search raises nothing, and
  it returns position \<open>j\<close> exactly when child \<open>j\<close> is the first child that passes the
  test \<open>containment\<close>: equal names, both dates of the invocation valid, the child's start
  absent with the invocation starting at or after the epoch or else a valid date not
  after the invocation's start, and the child's end absent or a valid date not before
  the invocation's end.
\<close>

theorem matching_child:
  assumes "index < length stk"
  shows "\<exists>r. findMatchingNode parse cs (stackAt stk index) call = Inr r \<and>
           (\<forall>j. r = Some j \<longleftrightarrow>
                j < length cs \<and> containment parse (stk ! index) call (cs ! j) \<and>
                (\<forall>i<j. \<not> containment parse (stk ! index) call (cs ! i)))"
  using assms
  by (simp add: findMatchingNode_def stackAt_def findIndex_Some_iff matchesCall_containment)

theorem matching_child_witness:
  "0 < length (stack getContextCall) \<and>
   findMatchingNode isoClock [placeholder ''get_context'', placeholder ''retriever'', closedRetriever]
     (stackAt (stack getContextCall) 0) getContextCall = Inr (Some 1) \<and>
   containment isoClock (stack getContextCall ! 0) getContextCall closedRetriever"
  using matching_child[of 0 "stack getContextCall" isoClock
      "[placeholder ''get_context'', placeholder ''retriever'', closedRetriever]" getContextCall]
  by (simp add: getContextCall_def findMatchingNode_def stackAt_def matchesCall_def
      containment_def placeholder_def closedRetriever_def frame_def getNameFromCell_def
      isoClock_def interval_def js_ge_def)

text \<open>
  C1 as stated fails: a placeholder child of the right name passes the stated test for
  an invocation with no start time and for one that starts before the epoch, and the
  search finds nothing in either case.
\<close>

theorem stated_containment_counterexample:
  "statedContainment isoClock (frame ''retriever'') unstartedCall (placeholder ''retriever'') \<and>
   findMatchingNode isoClock [placeholder ''retriever''] (stackAt (stack unstartedCall) 0)
     unstartedCall = Inr None \<and>
   statedContainment isoClock (frame ''retriever'') preEpochCall (placeholder ''retriever'') \<and>
   findMatchingNode isoClock [placeholder ''retriever''] (stackAt (stack preEpochCall) 0)
     preEpochCall = Inr None"
  by (simp add: statedContainment_def unstartedCall_def preEpochCall_def findMatchingNode_def
      stackAt_def matchesCall_def placeholder_def frame_def getNameFromCell_def
      isoClock_def interval_def js_ge_def)

subsection \<open>One invocation, position by position\<close>

lemma kids_withChildren [simp]: "kids (withChildren t cs) = cs"
  by (simp add: kids_def withChildren_def)

lemma fields_withChildren [simp]:
  "name (withChildren t cs) = name t" "startTime (withChildren t cs) = startTime t"
  "endTime (withChildren t cs) = endTime t" "raw (withChildren t cs) = raw t"
  "children (withChildren t cs) = Some cs"
  by (simp_all add: withChildren_def)

lemma kids_StackTreeNode [simp]:
  "kids (StackTreeNode (Some cs) n s e r) = cs" "kids (StackTreeNode None n s e r) = []"
  "kids (StackTreeNode (children m) n s e r) = kids m"
  by (simp_all add: kids_def)

lemma nodeAt_same_kids:
  "kids m' = kids m \<Longrightarrow> q \<noteq> [] \<Longrightarrow> nodeAt m' q = nodeAt m q"
  by (cases q) simp_all

lemma nodeAt_no_kids: "kids m = [] \<Longrightarrow> q \<noteq> [] \<Longrightarrow> nodeAt m q = None"
  by (cases q) simp_all

lemma keepsNodes_update:
  assumes j: "j < length (kids t)" and sub: "keepsNodes (kids t ! j) m' p'"
  shows "keepsNodes t (withChildren t ((kids t)[j := m'])) (j # p')"
  unfolding keepsNodes_def
proof (intro allI impI)
  fix q n assume q: "nodeAt t q = Some n"
  show "\<exists>n'. nodeAt (withChildren t ((kids t)[j := m'])) q = Some n' \<and> name n' = name n \<and>
      (q \<noteq> j # p' \<longrightarrow> startTime n' = startTime n \<and> endTime n' = endTime n \<and> raw n' = raw n)"
  proof (cases q)
    case Nil
    with q show ?thesis by simp
  next
    case (Cons i q')
    show ?thesis
    proof (cases "i = j")
      case True
      with q Cons j have "nodeAt (kids t ! j) q' = Some n" by simp
      with sub obtain n' where "nodeAt m' q' = Some n'" "name n' = name n"
        "q' \<noteq> p' \<longrightarrow> startTime n' = startTime n \<and> endTime n' = endTime n \<and> raw n' = raw n"
        unfolding keepsNodes_def by blast
      with Cons True j show ?thesis by simp
    next
      case False
      with q Cons show ?thesis by (simp split: if_splits)
    qed
  qed
qed

lemma keepsNodes_append: "keepsNodes t (withChildren t (kids t @ [m])) (length (kids t) # p')"
  unfolding keepsNodes_def
proof (intro allI impI)
  fix q n assume q: "nodeAt t q = Some n"
  show "\<exists>n'. nodeAt (withChildren t (kids t @ [m])) q = Some n' \<and> name n' = name n \<and>
      (q \<noteq> length (kids t) # p' \<longrightarrow>
         startTime n' = startTime n \<and> endTime n' = endTime n \<and> raw n' = raw n)"
  proof (cases q)
    case Nil
    with q show ?thesis by simp
  next
    case (Cons i q')
    with q show ?thesis by (simp add: nth_append split: if_splits)
  qed
qed

lemma keepsNodes_close: "keepsNodes m (StackTreeNode (children m) (name m) s e r) []"
  unfolding keepsNodes_def
proof (intro allI impI)
  fix q n assume q: "nodeAt m q = Some n"
  show "\<exists>n'. nodeAt (StackTreeNode (children m) (name m) s e r) q = Some n' \<and> name n' = name n \<and>
      (q \<noteq> [] \<longrightarrow> startTime n' = startTime n \<and> endTime n' = endTime n \<and> raw n' = raw n)"
  proof (cases "q = []")
    case True
    with q show ?thesis by simp
  next
    case False
    with q nodeAt_same_kids[of "StackTreeNode (children m) (name m) s e r" m q]
    show ?thesis by simp
  qed
qed

lemma keepsNodes_root:
  assumes "keepsNodes t t' p"
  shows "name t' = name t"
    and "p \<noteq> [] \<Longrightarrow> startTime t' = startTime t \<and> endTime t' = endTime t \<and> raw t' = raw t"
  using assms[unfolded keepsNodes_def, rule_format, of "[]" t] by auto

lemma freshNodes_update:
  assumes j: "j < length (kids t)" and sub: "freshNodes (kids t ! j) m' p' stk (Suc index)"
  shows "freshNodes t (withChildren t ((kids t)[j := m'])) (j # p') stk index"
  unfolding freshNodes_def
proof (intro allI impI)
  fix q n'
  assume new: "nodeAt (withChildren t ((kids t)[j := m'])) q = Some n'"
    and old: "nodeAt t q = None"
  from old obtain i q' where q: "q = i # q'" by (cases q) auto
  from new q have i: "i < length (kids t)" by (simp split: if_splits)
  have ij: "i = j"
  proof (rule ccontr)
    assume "i \<noteq> j"
    with new old q i show False by simp
  qed
  from new old q ij j have "nodeAt m' q' = Some n'" "nodeAt (kids t ! j) q' = None" by simp_all
  with sub have A: "\<exists>k. 0 < k \<and> k \<le> length p' \<and> q' = take k p' \<and>
        name n' = getNameFromCell (stk ! (Suc index + k - 1))"
    and B: "q' \<noteq> p' \<longrightarrow> startTime n' = None \<and> endTime n' = None \<and> raw n' = None"
    unfolding freshNodes_def by blast+
  from A obtain k where k: "0 < k" "k \<le> length p'" "q' = take k p'"
    "name n' = getNameFromCell (stk ! (Suc index + k - 1))" by blast
  have "0 < Suc k \<and> Suc k \<le> length (j # p') \<and> q = take (Suc k) (j # p') \<and>
      name n' = getNameFromCell (stk ! (index + Suc k - 1))"
    using k q ij by simp
  then have "\<exists>k. 0 < k \<and> k \<le> length (j # p') \<and> q = take k (j # p') \<and>
      name n' = getNameFromCell (stk ! (index + k - 1))" by blast
  moreover from B q ij
  have "q \<noteq> j # p' \<longrightarrow> startTime n' = None \<and> endTime n' = None \<and> raw n' = None" by simp
  ultimately show "(\<exists>k. 0 < k \<and> k \<le> length (j # p') \<and> q = take k (j # p') \<and>
      name n' = getNameFromCell (stk ! (index + k - 1))) \<and>
      (q \<noteq> j # p' \<longrightarrow> startTime n' = None \<and> endTime n' = None \<and> raw n' = None)" by blast
qed

lemma freshNodes_close: "freshNodes m (StackTreeNode (children m) (name m) s e r) [] stk index"
  unfolding freshNodes_def
proof (intro allI impI)
  fix q n'
  assume new: "nodeAt (StackTreeNode (children m) (name m) s e r) q = Some n'"
    and old: "nodeAt m q = None"
  from old have "q \<noteq> []" by auto
  with new old nodeAt_same_kids[of "StackTreeNode (children m) (name m) s e r" m q]
  have False by simp
  then show "(\<exists>k. 0 < k \<and> k \<le> length [] \<and> q = take k [] \<and>
      name n' = getNameFromCell (stk ! (index + k - 1))) \<and>
      (q \<noteq> [] \<longrightarrow> startTime n' = None \<and> endTime n' = None \<and> raw n' = None)" ..
qed

lemma freshNodes_append:
  assumes keep: "keepsNodes m0 m' p'" and sub: "freshNodes m0 m' p' stk (Suc index)"
    and m0: "kids m0 = []" "name m0 = getNameFromCell (stk ! index)"
    and unset: "p' \<noteq> [] \<longrightarrow> startTime m0 = None \<and> endTime m0 = None \<and> raw m0 = None"
  shows "freshNodes t (withChildren t (kids t @ [m'])) (length (kids t) # p') stk index"
  unfolding freshNodes_def
proof (intro allI impI)
  fix q n'
  let ?l = "length (kids t)"
  assume new: "nodeAt (withChildren t (kids t @ [m'])) q = Some n'"
    and old: "nodeAt t q = None"
  from old obtain i q' where q: "q = i # q'" by (cases q) auto
  from new q have i: "i < Suc ?l" by (simp split: if_splits)
  have il: "i = ?l"
  proof (rule ccontr)
    assume "i \<noteq> ?l"
    with i have "i < ?l" by simp
    with new old q show False by (simp add: nth_append)
  qed
  from new q il have sub': "nodeAt m' q' = Some n'" by simp
  show "(\<exists>k. 0 < k \<and> k \<le> length (?l # p') \<and> q = take k (?l # p') \<and>
      name n' = getNameFromCell (stk ! (index + k - 1))) \<and>
      (q \<noteq> ?l # p' \<longrightarrow> startTime n' = None \<and> endTime n' = None \<and> raw n' = None)"
  proof (cases "q' = []")
    case True
    from sub' True have "n' = m'" by simp
    with keepsNodes_root[OF keep] have n': "name n' = name m0"
      "[] \<noteq> p' \<longrightarrow> startTime n' = startTime m0 \<and> endTime n' = endTime m0 \<and> raw n' = raw m0"
      by auto
    have "0 < Suc 0 \<and> Suc 0 \<le> length (?l # p') \<and> q = take (Suc 0) (?l # p') \<and>
        name n' = getNameFromCell (stk ! (index + Suc 0 - 1))"
      using q il True n' m0 by simp
    then have "\<exists>k. 0 < k \<and> k \<le> length (?l # p') \<and> q = take k (?l # p') \<and>
        name n' = getNameFromCell (stk ! (index + k - 1))" by blast
    moreover have "q \<noteq> ?l # p' \<longrightarrow> startTime n' = None \<and> endTime n' = None \<and> raw n' = None"
      using q il True n' unset by auto
    ultimately show ?thesis by blast
  next
    case False
    with m0 have "nodeAt m0 q' = None" by (simp add: nodeAt_no_kids)
    with sub sub' have A: "\<exists>k. 0 < k \<and> k \<le> length p' \<and> q' = take k p' \<and>
          name n' = getNameFromCell (stk ! (Suc index + k - 1))"
      and B: "q' \<noteq> p' \<longrightarrow> startTime n' = None \<and> endTime n' = None \<and> raw n' = None"
      unfolding freshNodes_def by blast+
    from A obtain k where k: "0 < k" "k \<le> length p'" "q' = take k p'"
      "name n' = getNameFromCell (stk ! (Suc index + k - 1))" by blast
    have "0 < Suc k \<and> Suc k \<le> length (?l # p') \<and> q = take (Suc k) (?l # p') \<and>
        name n' = getNameFromCell (stk ! (index + Suc k - 1))"
      using k q il by simp
    then have "\<exists>k. 0 < k \<and> k \<le> length (?l # p') \<and> q = take k (?l # p') \<and>
        name n' = getNameFromCell (stk ! (index + k - 1))" by blast
    moreover from B q il
    have "q \<noteq> ?l # p' \<longrightarrow> startTime n' = None \<and> endTime n' = None \<and> raw n' = None" by simp
    ultimately show ?thesis by blast
  qed
qed


lemma keepsNodes_refl: "keepsNodes t t p"
  by (simp add: keepsNodes_def)

lemma freshNodes_refl: "freshNodes t t p stk index"
  by (simp add: freshNodes_def)

lemma resolvedAt_child:
  "resolvedAt parse m' p' call stk \<Longrightarrow> j < length cs \<Longrightarrow> cs ! j = m' \<Longrightarrow>
   resolvedAt parse (withChildren t cs) (j # p') call stk"
  by (simp add: resolvedAt_def)

lemma resolvedAt_here:
  "name leaf = getNameFromCell (last stk) \<Longrightarrow> raw leaf = Some call \<Longrightarrow>
   startTime leaf = fst (getStartAndEndTimes parse (CallJSONRaw.perf call)) \<Longrightarrow>
   endTime leaf = snd (getStartAndEndTimes parse (CallJSONRaw.perf call)) \<Longrightarrow>
   resolvedAt parse leaf [] call stk"
  by (simp add: resolvedAt_def)

lemma addCallToTree_step:
  "index < length stk \<Longrightarrow> addCallToTree parse t call stk index = Inr t' \<Longrightarrow>
   \<exists>p. length p = length stk - index \<and> resolvedAt parse t' p call stk \<and>
       keepsNodes t t' p \<and> freshNodes t t' p stk index"
proof (induction "length stk - index" arbitrary: index t t')
  case 0
  then show ?case by simp
next
  case (Suc d)
  let ?find = "findIndex (matchesCall parse (stk ! index) call) (kids t)"
  let ?s = "fst (getStartAndEndTimes parse (CallJSONRaw.perf call))"
  let ?e = "snd (getStartAndEndTimes parse (CallJSONRaw.perf call))"
  show ?case
  proof (cases "Suc index = length stk")
    case True
    then have lastcell: "last stk = stk ! index"
      by (cases stk) (auto simp: last_conv_nth)
    show ?thesis
    proof (cases ?find)
      case None
      let ?leaf = "StackTreeNode None (getNameFromCell (stk ! index)) ?s ?e (Some call)"
      from Suc.prems(2) have t': "t' = withChildren t (kids t @ [?leaf])"
        by (simp add: addCallToTree_leaf_new[OF True None])
      have "resolvedAt parse ?leaf [] call stk"
        by (rule resolvedAt_here) (simp_all add: lastcell)
      then have "resolvedAt parse t' [length (kids t)] call stk"
        unfolding t' by (intro resolvedAt_child) simp_all
      moreover have "keepsNodes t t' [length (kids t)]"
        unfolding t' by (rule keepsNodes_append)
      moreover have "freshNodes t t' [length (kids t)] stk index"
        unfolding t'
        by (rule freshNodes_append[where ?m0.0 = ?leaf])
           (simp_all add: keepsNodes_refl freshNodes_refl)
      ultimately show ?thesis using True by (intro exI[of _ "[length (kids t)]"]) simp
    next
      case (Some j)
      let ?m = "kids t ! j"
      let ?closed = "StackTreeNode (children ?m) (name ?m) ?s ?e (Some call)"
      from Some have j: "j < length (kids t)" and match: "matchesCall parse (stk ! index) call ?m"
        by (simp_all add: findIndex_Some_iff)
      from Suc.prems(2) have t': "t' = withChildren t ((kids t)[j := ?closed])"
        by (simp add: addCallToTree_leaf_match[OF True Some])
      have "resolvedAt parse ?closed [] call stk"
        using match by (intro resolvedAt_here) (simp_all add: lastcell matchesCall_def)
      then have "resolvedAt parse t' [j] call stk"
        unfolding t' using j by (intro resolvedAt_child) simp_all
      moreover have "keepsNodes t t' [j]"
        unfolding t' using j by (rule keepsNodes_update) (rule keepsNodes_close)
      moreover have "freshNodes t t' [j] stk index"
        unfolding t' using j by (rule freshNodes_update) (rule freshNodes_close)
      ultimately show ?thesis using True by (intro exI[of _ "[j]"]) simp
    qed
  next
    case False
    with Suc.prems have lt: "Suc index < length stk" by simp
    from Suc.hyps(2) have d: "d = length stk - Suc index" by simp
    show ?thesis
    proof (cases ?find)
      case None
      let ?m0 = "StackTreeNode (Some []) (getNameFromCell (stk ! index)) None None None"
      from Suc.prems(2) obtain m' where m': "addCallToTree parse ?m0 call stk (Suc index) = Inr m'"
        and t': "t' = withChildren t (kids t @ [m'])"
        by (auto simp: addCallToTree_inner_new[OF lt None] split: sum.splits)
      from Suc.hyps(1)[OF d lt m'] obtain p' where p': "length p' = length stk - Suc index"
        "resolvedAt parse m' p' call stk" "keepsNodes ?m0 m' p'"
        "freshNodes ?m0 m' p' stk (Suc index)" by blast
      have "resolvedAt parse t' (length (kids t) # p') call stk"
        unfolding t' using p'(2) by (intro resolvedAt_child) simp_all
      moreover have "keepsNodes t t' (length (kids t) # p')"
        unfolding t' by (rule keepsNodes_append)
      moreover have "freshNodes t t' (length (kids t) # p') stk index"
        unfolding t' by (rule freshNodes_append[OF p'(3) p'(4)]) simp_all
      ultimately show ?thesis using p'(1) lt
        by (intro exI[of _ "length (kids t) # p'"]) simp
    next
      case (Some j)
      from Some have j: "j < length (kids t)" by (simp add: findIndex_Some_iff)
      from Suc.prems(2) obtain m' where
        m': "addCallToTree parse (kids t ! j) call stk (Suc index) = Inr m'"
        and t': "t' = withChildren t ((kids t)[j := m'])"
        by (auto simp: addCallToTree_inner_match[OF lt Some] split: sum.splits)
      from Suc.hyps(1)[OF d lt m'] obtain p' where p': "length p' = length stk - Suc index"
        "resolvedAt parse m' p' call stk" "keepsNodes (kids t ! j) m' p'"
        "freshNodes (kids t ! j) m' p' stk (Suc index)" by blast
      have "resolvedAt parse t' (j # p') call stk"
        unfolding t' using p'(2) j by (intro resolvedAt_child) simp_all
      moreover have "keepsNodes t t' (j # p')"
        unfolding t' using j p'(3) by (rule keepsNodes_update)
      moreover have "freshNodes t t' (j # p') stk index"
        unfolding t' using j p'(4) by (rule freshNodes_update)
      ultimately show ?thesis using p'(1) lt
        by (intro exI[of _ "j # p'"]) simp
    qed
  qed
qed

subsection \<open>Growth of the tree\<close>

lemma nodeCount_kids: "nodeCount t = Suc (sum_list (map nodeCount (kids t)))"
  by (cases t) (simp add: kids_def split: option.splits)

declare nodeCount.simps [simp del]

lemma nodeCount_append:
  "nodeCount (withChildren t (kids t @ [m])) = nodeCount t + nodeCount m"
  by (simp add: nodeCount_kids[of "withChildren t (kids t @ [m])"] nodeCount_kids[of t])

lemma nodeCount_update:
  assumes "j < length (kids t)"
  shows "nodeCount (withChildren t ((kids t)[j := m])) + nodeCount (kids t ! j) =
         nodeCount t + nodeCount m"
proof -
  from assms have "nodeCount (kids t ! j) \<in> set (map nodeCount (kids t))" by simp
  then have "nodeCount (kids t ! j) \<le> sum_list (map nodeCount (kids t))"
    by (simp add: member_le_sum_list)
  with assms show ?thesis
    by (simp add: nodeCount_kids[of "withChildren t ((kids t)[j := m])"] nodeCount_kids[of t]
        map_update sum_list_update)
qed

lemma addCallToTree_nodeCount:
  "index < length stk \<Longrightarrow> addCallToTree parse t call stk index = Inr t' \<Longrightarrow>
   nodeCount t \<le> nodeCount t' \<and> nodeCount t' \<le> nodeCount t + (length stk - index)"
proof (induction "length stk - index" arbitrary: index t t')
  case 0
  then show ?case by simp
next
  case (Suc d)
  let ?find = "findIndex (matchesCall parse (stk ! index) call) (kids t)"
  show ?case
  proof (cases "Suc index = length stk")
    case True
    show ?thesis
    proof (cases ?find)
      case None
      from Suc.prems(2) have "t' = withChildren t (kids t @
          [StackTreeNode None (getNameFromCell (stk ! index))
            (fst (getStartAndEndTimes parse (CallJSONRaw.perf call)))
            (snd (getStartAndEndTimes parse (CallJSONRaw.perf call))) (Some call)])"
        by (simp add: addCallToTree_leaf_new[OF True None])
      with True show ?thesis
        by (simp add: nodeCount_append nodeCount.simps)
    next
      case (Some j)
      then have j: "j < length (kids t)" by (simp add: findIndex_Some_iff)
      let ?closed = "StackTreeNode (children (kids t ! j)) (name (kids t ! j))
          (fst (getStartAndEndTimes parse (CallJSONRaw.perf call)))
          (snd (getStartAndEndTimes parse (CallJSONRaw.perf call))) (Some call)"
      have "nodeCount ?closed = nodeCount (kids t ! j)"
        by (simp add: nodeCount_kids[of ?closed] nodeCount_kids[of "kids t ! j"])
      moreover from Suc.prems(2) have "t' = withChildren t ((kids t)[j := ?closed])"
        by (simp add: addCallToTree_leaf_match[OF True Some])
      ultimately show ?thesis
        using nodeCount_update[OF j, of ?closed] by simp
    qed
  next
    case False
    with Suc.prems have lt: "Suc index < length stk" by simp
    from Suc.hyps(2) have d: "d = length stk - Suc index" by simp
    show ?thesis
    proof (cases ?find)
      case None
      let ?m0 = "StackTreeNode (Some []) (getNameFromCell (stk ! index)) None None None"
      from Suc.prems(2) obtain m' where m': "addCallToTree parse ?m0 call stk (Suc index) = Inr m'"
        and t': "t' = withChildren t (kids t @ [m'])"
        by (auto simp: addCallToTree_inner_new[OF lt None] split: sum.splits)
      from Suc.hyps(1)[OF d lt m'] have "nodeCount m' \<le> Suc (length stk - Suc index)"
        by (simp add: nodeCount.simps)
      with lt have "nodeCount m' \<le> length stk - index" by arith
      then show ?thesis
        by (simp add: t' nodeCount_append)
    next
      case (Some j)
      then have j: "j < length (kids t)" by (simp add: findIndex_Some_iff)
      from Suc.prems(2) obtain m' where
        m': "addCallToTree parse (kids t ! j) call stk (Suc index) = Inr m'"
        and t': "t' = withChildren t ((kids t)[j := m'])"
        by (auto simp: addCallToTree_inner_match[OF lt Some] split: sum.splits)
      from Suc.hyps(1)[OF d lt m'] nodeCount_update[OF j, of m'] lt show ?thesis
        unfolding t' by arith
    qed
  qed
qed

lemma nestedTree_step:
  "addCallToTree isoClock retrieverTree getContextCall (stack getContextCall) 0 = Inr nestedTree"
  by (simp add: retrieverTree_def nestedTree_def closedRetriever_def isoClock_def interval_def
      retrieverCall_def getContextCall_def frame_def
      addCallToTree.simps findMatchingNode_def stackAt_def nameOfCell_def kids_def
      matchesCall_def getNameFromCell_def getStartAndEndTimes_def truthy_def js_ge_def
      withChildren_def)

text \<open>
  C10. One invocation, processed from any index of its stack: there is a position \<open>p\<close>,
  as long as the rest of the stack, such that every node of the tree before is found
  afterwards at its old position with its old name, and with its old start, end and
  \<^verbatim>\<open>raw\<close> unless its position is \<open>p\<close>; every node that is new lies at a prefix of \<open>p\<close>,
  so there is at most one new node per stack depth; and the number of nodes does not
  shrink and grows by at most the number of stack cells processed.
\<close>

theorem monotone_growth:
  assumes "index < length stk" and "addCallToTree parse t call stk index = Inr t'"
  shows "\<exists>p. length p = length stk - index \<and>
     (\<forall>q n. nodeAt t q = Some n \<longrightarrow>
        (\<exists>n'. nodeAt t' q = Some n' \<and> name n' = name n \<and>
           (q \<noteq> p \<longrightarrow>
              startTime n' = startTime n \<and> endTime n' = endTime n \<and> raw n' = raw n))) \<and>
     (\<forall>q n'. nodeAt t' q = Some n' \<longrightarrow> nodeAt t q = None \<longrightarrow>
        (\<exists>k. 0 < k \<and> k \<le> length p \<and> q = take k p)) \<and>
     nodeCount t \<le> nodeCount t' \<and> nodeCount t' \<le> nodeCount t + (length stk - index)"
proof -
  from addCallToTree_step[OF assms] obtain p where p: "length p = length stk - index"
    "keepsNodes t t' p" "freshNodes t t' p stk index" by blast
  from p(2) have keep: "\<forall>q n. nodeAt t q = Some n \<longrightarrow>
        (\<exists>n'. nodeAt t' q = Some n' \<and> name n' = name n \<and>
           (q \<noteq> p \<longrightarrow>
              startTime n' = startTime n \<and> endTime n' = endTime n \<and> raw n' = raw n))"
    by (simp only: keepsNodes_def)
  from p(3) have fresh: "\<forall>q n'. nodeAt t' q = Some n' \<longrightarrow> nodeAt t q = None \<longrightarrow>
        (\<exists>k. 0 < k \<and> k \<le> length p \<and> q = take k p)"
    unfolding freshNodes_def by blast
  from p(1) keep fresh addCallToTree_nodeCount[OF assms] show ?thesis by blast
qed



theorem monotone_growth_witness:
  "0 < length (stack getContextCall) \<and>
   addCallToTree isoClock retrieverTree getContextCall (stack getContextCall) 0 = Inr nestedTree \<and>
   (\<exists>p. length p = length (stack getContextCall) - 0 \<and>
     (\<forall>q n. nodeAt retrieverTree q = Some n \<longrightarrow>
        (\<exists>n'. nodeAt nestedTree q = Some n' \<and> name n' = name n \<and>
           (q \<noteq> p \<longrightarrow>
              startTime n' = startTime n \<and> endTime n' = endTime n \<and> raw n' = raw n))) \<and>
     (\<forall>q n'. nodeAt nestedTree q = Some n' \<longrightarrow> nodeAt retrieverTree q = None \<longrightarrow>
        (\<exists>k. 0 < k \<and> k \<le> length p \<and> q = take k p)) \<and>
     nodeCount retrieverTree \<le> nodeCount nestedTree \<and>
     nodeCount nestedTree \<le> nodeCount retrieverTree + (length (stack getContextCall) - 0))"
proof -
  have a: "0 < length (stack getContextCall)" by (simp add: getContextCall_def)
  from monotone_growth[OF a nestedTree_step] a nestedTree_step show ?thesis by blast
qed

subsection \<open>The loop over the calls\<close>



lemma addCallToTree_Inr_index:
  "addCallToTree parse t call stk index = Inr t' \<Longrightarrow> index < length stk"
  by (rule ccontr) (simp add: addCallToTree_undefined_cell)

lemma addCalls_append:
  "addCalls parse t (xs @ ys) =
     (case addCalls parse t xs of Inl e \<Rightarrow> Inl e | Inr t' \<Rightarrow> addCalls parse t' ys)"
  by (induction xs arbitrary: t) (auto split: sum.splits)

lemma addCalls_split:
  assumes "addCalls parse t cs = Inr tree" and "i < length cs"
  shows "\<exists>before after.
           addCalls parse t (take i cs) = Inr before \<and>
           addCallToTree parse before (cs ! i) (stack (cs ! i)) 0 = Inr after \<and>
           addCalls parse after (drop (Suc i) cs) = Inr tree"
proof -
  from assms(2) have "cs = take i cs @ cs ! i # drop (Suc i) cs"
    by (rule id_take_nth_drop)
  then have "addCalls parse t (take i cs @ cs ! i # drop (Suc i) cs) = Inr tree"
    using assms(1) by simp
  then show ?thesis
    by (auto simp: addCalls_append split: sum.splits)
qed

lemma addCalls_keeps:
  "addCalls parse t cs = Inr t' \<Longrightarrow> nodeAt t q = Some n \<Longrightarrow>
   \<exists>n'. nodeAt t' q = Some n' \<and> name n' = name n"
proof (induction cs arbitrary: t n)
  case Nil
  then show ?case by simp
next
  case (Cons c cs)
  from Cons.prems(1) obtain t1 where t1: "addCallToTree parse t c (stack c) 0 = Inr t1"
    and rest: "addCalls parse t1 cs = Inr t'"
    by (auto split: sum.splits)
  from addCallToTree_step[OF addCallToTree_Inr_index[OF t1] t1] obtain p where
    "keepsNodes t t1 p" by blast
  with Cons.prems(2) obtain n1 where n1: "nodeAt t1 q = Some n1" "name n1 = name n"
    unfolding keepsNodes_def by blast
  from Cons.IH[OF rest n1(1)] n1(2) show ?case by simp
qed

lemma addCalls_returns:
  "\<forall>c\<in>set cs. stack c \<noteq> [] \<Longrightarrow> \<exists>t'. addCalls parse t cs = Inr t'"
proof (induction cs arbitrary: t)
  case Nil
  then show ?case by simp
next
  case (Cons c cs)
  then have "0 < length (stack c)" by simp
  from addCallToTree_returns[OF this] obtain t1 where
    "addCallToTree parse t c (stack c) 0 = Inr t1" by blast
  with Cons.IH[of t1] Cons.prems show ?case by simp
qed

lemma addCallToTree_raw_elsewhere:
  assumes "keepsNodes t t' p" and "freshNodes t t' p stk index"
    and "q \<noteq> p" and "nodeAt t' q = Some n'"
  shows "raw n' = (case nodeAt t q of None \<Rightarrow> None | Some n \<Rightarrow> raw n)"
proof (cases "nodeAt t q")
  case None
  with assms(2-4) show ?thesis unfolding freshNodes_def by auto
next
  case (Some n)
  with assms(1,3,4) show ?thesis unfolding keepsNodes_def by fastforce
qed

text \<open>
  C5. Whenever the tree is returned, the step for the invocation at index \<open>i\<close> of the
  calls writes that invocation into \<^verbatim>\<open>raw\<close> at one position \<open>p\<close> and at no other: every
  other node keeps the \<^verbatim>\<open>raw\<close> it had, and is without one if it is new. The length of
  \<open>p\<close>, the depth of that node below the root, is the length of the invocation's stack,
  and the node is still at \<open>p\<close>, under the same name, in the tree that is returned.
\<close>

theorem resolved_node_depth:
  assumes "createTreeFromCalls parse recordJSON = Inr tree"
    and "i < length (calls recordJSON)"
  shows "\<exists>before after p leaf final.
     addCalls parse (rootOf parse recordJSON) (take i (calls recordJSON)) = Inr before \<and>
     addCallToTree parse before (calls recordJSON ! i) (stack (calls recordJSON ! i)) 0 = Inr after \<and>
     length p = length (stack (calls recordJSON ! i)) \<and>
     nodeAt after p = Some leaf \<and> raw leaf = Some (calls recordJSON ! i) \<and>
     (\<forall>q n'. q \<noteq> p \<longrightarrow> nodeAt after q = Some n' \<longrightarrow>
        raw n' = (case nodeAt before q of None \<Rightarrow> None | Some n \<Rightarrow> raw n)) \<and>
     nodeAt tree p = Some final \<and> name final = name leaf"
proof -
  let ?c = "calls recordJSON ! i"
  from addCalls_split[OF assms[unfolded createTreeFromCalls_def]] obtain before after where
    before: "addCalls parse (rootOf parse recordJSON) (take i (calls recordJSON)) = Inr before"
    and after: "addCallToTree parse before ?c (stack ?c) 0 = Inr after"
    and rest: "addCalls parse after (drop (Suc i) (calls recordJSON)) = Inr tree"
    by blast
  from addCallToTree_step[OF addCallToTree_Inr_index[OF after] after] obtain p where
    p: "length p = length (stack ?c)" "resolvedAt parse after p ?c (stack ?c)"
    "keepsNodes before after p" "freshNodes before after p (stack ?c) 0" by auto
  from p(2) obtain leaf where leaf: "nodeAt after p = Some leaf" "raw leaf = Some ?c"
    unfolding resolvedAt_def by blast
  from addCalls_keeps[OF rest leaf(1)] obtain final where
    final: "nodeAt tree p = Some final" "name final = name leaf" by blast
  have "\<forall>q n'. q \<noteq> p \<longrightarrow> nodeAt after q = Some n' \<longrightarrow>
        raw n' = (case nodeAt before q of None \<Rightarrow> None | Some n \<Rightarrow> raw n)"
    using addCallToTree_raw_elsewhere[OF p(3) p(4)] by blast
  with before after p(1) leaf final show ?thesis by blast
qed

theorem resolved_node_depth_witness:
  "createTreeFromCalls isoClock nestedRun = Inr nestedTree \<and> 1 < length (calls nestedRun) \<and>
   (\<exists>before after p leaf final.
     addCalls isoClock (rootOf isoClock nestedRun) (take 1 (calls nestedRun)) = Inr before \<and>
     addCallToTree isoClock before (calls nestedRun ! 1) (stack (calls nestedRun ! 1)) 0 = Inr after \<and>
     length p = length (stack (calls nestedRun ! 1)) \<and>
     nodeAt after p = Some leaf \<and> raw leaf = Some (calls nestedRun ! 1) \<and>
     (\<forall>q n'. q \<noteq> p \<longrightarrow> nodeAt after q = Some n' \<longrightarrow>
        raw n' = (case nodeAt before q of None \<Rightarrow> None | Some n \<Rightarrow> raw n)) \<and>
     nodeAt nestedTree p = Some final \<and> name final = name leaf)"
proof -
  have a: "1 < length (calls nestedRun)" by (simp add: nestedRun_def)
  from resolved_node_depth[OF nestedRun_tree a] nestedRun_tree a show ?thesis by blast
qed

lemma addCalls_keeps_fields:
  "addCalls parse t cs = Inr t' \<Longrightarrow> nodeAt t p = Some n \<Longrightarrow>
   \<exists>n'. nodeAt t' p = Some n' \<and> name n' = name n \<and>
     ((startTime n' = startTime n \<and> endTime n' = endTime n \<and> raw n' = raw n) \<or>
      (\<exists>c\<in>set cs. raw n' = Some c \<and>
         startTime n' = fst (getStartAndEndTimes parse (CallJSONRaw.perf c)) \<and>
         endTime n' = snd (getStartAndEndTimes parse (CallJSONRaw.perf c))))"
proof (induction cs arbitrary: t n)
  case Nil
  then show ?case by simp
next
  case (Cons c cs)
  from Cons.prems(1) obtain t1 where t1: "addCallToTree parse t c (stack c) 0 = Inr t1"
    and rest: "addCalls parse t1 cs = Inr t'"
    by (auto split: sum.splits)
  from addCallToTree_step[OF addCallToTree_Inr_index[OF t1] t1] obtain p1 where
    res: "resolvedAt parse t1 p1 c (stack c)" and keep: "keepsNodes t t1 p1" by blast
  from keep Cons.prems(2) obtain n1 where n1: "nodeAt t1 p = Some n1" "name n1 = name n"
    and same: "p \<noteq> p1 \<longrightarrow> startTime n1 = startTime n \<and> endTime n1 = endTime n \<and> raw n1 = raw n"
    unfolding keepsNodes_def by blast
  have first: "(startTime n1 = startTime n \<and> endTime n1 = endTime n \<and> raw n1 = raw n) \<or>
      (raw n1 = Some c \<and>
         startTime n1 = fst (getStartAndEndTimes parse (CallJSONRaw.perf c)) \<and>
         endTime n1 = snd (getStartAndEndTimes parse (CallJSONRaw.perf c)))"
  proof (cases "p = p1")
    case True
    with res n1(1) show ?thesis unfolding resolvedAt_def by auto
  next
    case False
    with same show ?thesis by simp
  qed
  from Cons.IH[OF rest n1(1)] obtain n' where n': "nodeAt t' p = Some n'" "name n' = name n1"
    and later: "(startTime n' = startTime n1 \<and> endTime n' = endTime n1 \<and> raw n' = raw n1) \<or>
      (\<exists>c\<in>set cs. raw n' = Some c \<and>
         startTime n' = fst (getStartAndEndTimes parse (CallJSONRaw.perf c)) \<and>
         endTime n' = snd (getStartAndEndTimes parse (CallJSONRaw.perf c)))"
    by blast
  from first later have "(startTime n' = startTime n \<and> endTime n' = endTime n \<and> raw n' = raw n) \<or>
      (\<exists>c\<in>set (c # cs). raw n' = Some c \<and>
         startTime n' = fst (getStartAndEndTimes parse (CallJSONRaw.perf c)) \<and>
         endTime n' = snd (getStartAndEndTimes parse (CallJSONRaw.perf c)))"
    by auto
  with n' n1(2) show ?case by simp
qed

text \<open>
  C7, as the code has it. Whatever the timing fields of the invocations are, present
  or missing, a record whose stacks are all non-empty makes \<^verbatim>\<open>createTreeFromCalls\<close>
  return a tree, and the tree is what the steps make, one for each call. The step for
  the invocation at index \<open>i\<close> writes that invocation into \<^verbatim>\<open>raw\<close> at one position \<open>p\<close>, as
  deep as the stack is long, and at no other; the node there has no start when the
  invocation has no \<^verbatim>\<open>start_time\<close> and no end when it has no \<^verbatim>\<open>end_time\<close>. In the tree
  that is returned the node is still at \<open>p\<close> under the same name, with this start, end
  and \<^verbatim>\<open>raw\<close>, unless a later invocation has overwritten the three with its own.
\<close>

theorem missing_timing_is_no_error:
  assumes "\<forall>c\<in>set (calls recordJSON). stack c \<noteq> []"
  shows "\<exists>tree. createTreeFromCalls parse recordJSON = Inr tree \<and>
     (\<forall>i<length (calls recordJSON). \<exists>before after p leaf final.
        addCalls parse (rootOf parse recordJSON) (take i (calls recordJSON)) = Inr before \<and>
        addCallToTree parse before (calls recordJSON ! i) (stack (calls recordJSON ! i)) 0 = Inr after \<and>
        addCalls parse after (drop (Suc i) (calls recordJSON)) = Inr tree \<and>
        length p = length (stack (calls recordJSON ! i)) \<and>
        nodeAt after p = Some leaf \<and> raw leaf = Some (calls recordJSON ! i) \<and>
        (start_time (CallJSONRaw.perf (calls recordJSON ! i)) = None \<longrightarrow> startTime leaf = None) \<and>
        (end_time (CallJSONRaw.perf (calls recordJSON ! i)) = None \<longrightarrow> endTime leaf = None) \<and>
        (\<forall>q n'. q \<noteq> p \<longrightarrow> nodeAt after q = Some n' \<longrightarrow>
           raw n' = (case nodeAt before q of None \<Rightarrow> None | Some n \<Rightarrow> raw n)) \<and>
        nodeAt tree p = Some final \<and> name final = name leaf \<and>
        ((startTime final = startTime leaf \<and> endTime final = endTime leaf \<and>
          raw final = raw leaf) \<or>
         (\<exists>c\<in>set (drop (Suc i) (calls recordJSON)). raw final = Some c \<and>
            startTime final = fst (getStartAndEndTimes parse (CallJSONRaw.perf c)) \<and>
            endTime final = snd (getStartAndEndTimes parse (CallJSONRaw.perf c)))))"
proof -
  from addCalls_returns[OF assms] obtain tree where
    tree: "addCalls parse (rootOf parse recordJSON) (calls recordJSON) = Inr tree" by blast
  have "\<exists>before after p leaf final.
        addCalls parse (rootOf parse recordJSON) (take i (calls recordJSON)) = Inr before \<and>
        addCallToTree parse before (calls recordJSON ! i) (stack (calls recordJSON ! i)) 0 = Inr after \<and>
        addCalls parse after (drop (Suc i) (calls recordJSON)) = Inr tree \<and>
        length p = length (stack (calls recordJSON ! i)) \<and>
        nodeAt after p = Some leaf \<and> raw leaf = Some (calls recordJSON ! i) \<and>
        (start_time (CallJSONRaw.perf (calls recordJSON ! i)) = None \<longrightarrow> startTime leaf = None) \<and>
        (end_time (CallJSONRaw.perf (calls recordJSON ! i)) = None \<longrightarrow> endTime leaf = None) \<and>
        (\<forall>q n'. q \<noteq> p \<longrightarrow> nodeAt after q = Some n' \<longrightarrow>
           raw n' = (case nodeAt before q of None \<Rightarrow> None | Some n \<Rightarrow> raw n)) \<and>
        nodeAt tree p = Some final \<and> name final = name leaf \<and>
        ((startTime final = startTime leaf \<and> endTime final = endTime leaf \<and>
          raw final = raw leaf) \<or>
         (\<exists>c\<in>set (drop (Suc i) (calls recordJSON)). raw final = Some c \<and>
            startTime final = fst (getStartAndEndTimes parse (CallJSONRaw.perf c)) \<and>
            endTime final = snd (getStartAndEndTimes parse (CallJSONRaw.perf c))))"
    if i: "i < length (calls recordJSON)" for i
  proof -
    let ?c = "calls recordJSON ! i"
    from addCalls_split[OF tree i] obtain before after where
      before: "addCalls parse (rootOf parse recordJSON) (take i (calls recordJSON)) = Inr before"
      and after: "addCallToTree parse before ?c (stack ?c) 0 = Inr after"
      and rest: "addCalls parse after (drop (Suc i) (calls recordJSON)) = Inr tree"
      by blast
    from addCallToTree_step[OF addCallToTree_Inr_index[OF after] after] obtain p where
      p: "length p = length (stack ?c)" "resolvedAt parse after p ?c (stack ?c)"
      "keepsNodes before after p" "freshNodes before after p (stack ?c) 0" by auto
    from p(2) obtain leaf where leaf: "nodeAt after p = Some leaf" "raw leaf = Some ?c"
      "startTime leaf = fst (getStartAndEndTimes parse (CallJSONRaw.perf ?c))"
      "endTime leaf = snd (getStartAndEndTimes parse (CallJSONRaw.perf ?c))"
      unfolding resolvedAt_def by blast
    from leaf(3,4) have absent:
      "start_time (CallJSONRaw.perf ?c) = None \<longrightarrow> startTime leaf = None"
      "end_time (CallJSONRaw.perf ?c) = None \<longrightarrow> endTime leaf = None"
      by (simp_all add: getStartAndEndTimes_def truthy_def)
    have elsewhere: "\<forall>q n'. q \<noteq> p \<longrightarrow> nodeAt after q = Some n' \<longrightarrow>
        raw n' = (case nodeAt before q of None \<Rightarrow> None | Some n \<Rightarrow> raw n)"
      using addCallToTree_raw_elsewhere[OF p(3) p(4)] by blast
    from addCalls_keeps_fields[OF rest leaf(1)] obtain final where
      final: "nodeAt tree p = Some final" "name final = name leaf"
      "(startTime final = startTime leaf \<and> endTime final = endTime leaf \<and>
          raw final = raw leaf) \<or>
       (\<exists>c\<in>set (drop (Suc i) (calls recordJSON)). raw final = Some c \<and>
            startTime final = fst (getStartAndEndTimes parse (CallJSONRaw.perf c)) \<and>
            endTime final = snd (getStartAndEndTimes parse (CallJSONRaw.perf c)))"
      by blast
    show ?thesis
      by (intro exI[of _ before] exI[of _ after] exI[of _ p] exI[of _ leaf] exI[of _ final]
          conjI before after rest p(1) leaf(1,2) absent elsewhere final)
  qed
  note step = this
  from tree have c: "createTreeFromCalls parse recordJSON = Inr tree"
    by (simp add: createTreeFromCalls_def)
  show ?thesis
    by (intro exI[of _ tree] conjI allI impI c step)
qed

lemma unstartedRun_tree:
  "createTreeFromCalls isoClock unstartedRun =
     Inr (StackTreeNode
           (Some [StackTreeNode None ''retriever'' None (Some (ValidDate 10)) (Some unstartedCall)])
           ''App'' (Some (ValidDate 0)) (Some (ValidDate 10)) None)"
  by (simp add: createTreeFromCalls_def unstartedRun_def rootOf_def unstartedCall_def
      frame_def getNameFromCell_def isoClock_def interval_def js_ge_def
      addCallToTree.simps findMatchingNode_def stackAt_def nameOfCell_def kids_def
      matchesCall_def getStartAndEndTimes_def truthy_def withChildren_def)

theorem missing_timing_is_no_error_witness:
  "stack (calls unstartedRun ! 0) \<noteq> [] \<and> length (calls unstartedRun) = 1 \<and>
   start_time (CallJSONRaw.perf (calls unstartedRun ! 0)) = None \<and>
   (\<exists>tree. createTreeFromCalls isoClock unstartedRun = Inr tree \<and>
     (\<exists>before after p leaf final.
        addCalls isoClock (rootOf isoClock unstartedRun) (take 0 (calls unstartedRun)) = Inr before \<and>
        addCallToTree isoClock before (calls unstartedRun ! 0) (stack (calls unstartedRun ! 0)) 0 = Inr after \<and>
        addCalls isoClock after (drop (Suc 0) (calls unstartedRun)) = Inr tree \<and>
        length p = length (stack (calls unstartedRun ! 0)) \<and>
        nodeAt after p = Some leaf \<and> raw leaf = Some (calls unstartedRun ! 0) \<and>
        (start_time (CallJSONRaw.perf (calls unstartedRun ! 0)) = None \<longrightarrow> startTime leaf = None) \<and>
        (end_time (CallJSONRaw.perf (calls unstartedRun ! 0)) = None \<longrightarrow> endTime leaf = None) \<and>
        (\<forall>q n'. q \<noteq> p \<longrightarrow> nodeAt after q = Some n' \<longrightarrow>
           raw n' = (case nodeAt before q of None \<Rightarrow> None | Some n \<Rightarrow> raw n)) \<and>
        nodeAt tree p = Some final \<and> name final = name leaf \<and>
        ((startTime final = startTime leaf \<and> endTime final = endTime leaf \<and>
          raw final = raw leaf) \<or>
         (\<exists>c\<in>set (drop (Suc 0) (calls unstartedRun)). raw final = Some c \<and>
            startTime final = fst (getStartAndEndTimes isoClock (CallJSONRaw.perf c)) \<and>
            endTime final = snd (getStartAndEndTimes isoClock (CallJSONRaw.perf c))))))"
proof -
  have a: "\<forall>c\<in>set (calls unstartedRun). stack c \<noteq> []"
    by (simp add: unstartedRun_def unstartedCall_def)
  have b: "stack (calls unstartedRun ! 0) \<noteq> []" "length (calls unstartedRun) = 1"
    "start_time (CallJSONRaw.perf (calls unstartedRun ! 0)) = None"
    by (simp_all add: unstartedRun_def unstartedCall_def)
  from b(2) have z: "0 < length (calls unstartedRun)" by simp
  from missing_timing_is_no_error[OF a, of isoClock] show ?thesis
  proof (elim exE conjE)
    fix tree
    assume tree: "createTreeFromCalls isoClock unstartedRun = Inr tree"
      and all: "\<forall>i<length (calls unstartedRun). \<exists>before after p leaf final.
        addCalls isoClock (rootOf isoClock unstartedRun) (take i (calls unstartedRun)) = Inr before \<and>
        addCallToTree isoClock before (calls unstartedRun ! i) (stack (calls unstartedRun ! i)) 0 = Inr after \<and>
        addCalls isoClock after (drop (Suc i) (calls unstartedRun)) = Inr tree \<and>
        length p = length (stack (calls unstartedRun ! i)) \<and>
        nodeAt after p = Some leaf \<and> raw leaf = Some (calls unstartedRun ! i) \<and>
        (start_time (CallJSONRaw.perf (calls unstartedRun ! i)) = None \<longrightarrow> startTime leaf = None) \<and>
        (end_time (CallJSONRaw.perf (calls unstartedRun ! i)) = None \<longrightarrow> endTime leaf = None) \<and>
        (\<forall>q n'. q \<noteq> p \<longrightarrow> nodeAt after q = Some n' \<longrightarrow>
           raw n' = (case nodeAt before q of None \<Rightarrow> None | Some n \<Rightarrow> raw n)) \<and>
        nodeAt tree p = Some final \<and> name final = name leaf \<and>
        ((startTime final = startTime leaf \<and> endTime final = endTime leaf \<and>
          raw final = raw leaf) \<or>
         (\<exists>c\<in>set (drop (Suc i) (calls unstartedRun)). raw final = Some c \<and>
            startTime final = fst (getStartAndEndTimes isoClock (CallJSONRaw.perf c)) \<and>
            endTime final = snd (getStartAndEndTimes isoClock (CallJSONRaw.perf c))))"
    note inst = all[rule_format, OF z]
    show ?thesis
      by (intro conjI exI[of _ tree] b tree inst)
  qed
qed

text \<open>
  C7 as stated fails twice. An invocation without timing and with an empty stack makes
  the call raise. And the node resolved by an invocation without a start is not left
  as a placeholder: it has no start, but it carries the invocation in \<^verbatim>\<open>raw\<close>.
\<close>

theorem missing_timing_counterexample:
  "createTreeFromCalls isoClock untimedEmptyRun = Inl TypeError \<and>
   createTreeFromCalls isoClock unstartedRun =
     Inr (StackTreeNode
           (Some [StackTreeNode None ''retriever'' None (Some (ValidDate 10)) (Some unstartedCall)])
           ''App'' (Some (ValidDate 0)) (Some (ValidDate 10)) None)"
  by (simp add: createTreeFromCalls_def untimedEmptyRun_def unstartedRun_def rootOf_def
      unstartedCall_def frame_def getNameFromCell_def isoClock_def interval_def js_ge_def
      addCallToTree.simps findMatchingNode_def stackAt_def nameOfCell_def kids_def
      matchesCall_def getStartAndEndTimes_def truthy_def withChildren_def)

subsection \<open>The children field\<close>

lemma tidy_no_kids: "kids t = [] \<Longrightarrow> tidy t"
  by (simp add: tidy_def nodeAt_no_kids)

lemma tidy_child:
  assumes "tidy t" and "j < length (kids t)"
  shows "tidy (kids t ! j)" and "children (kids t ! j) \<noteq> Some []"
proof -
  show "tidy (kids t ! j)"
    unfolding tidy_def
  proof (intro allI impI)
    fix q n assume "q \<noteq> []" "nodeAt (kids t ! j) q = Some n"
    with assms(2) have "nodeAt t (j # q) = Some n" by simp
    with assms(1) show "children n \<noteq> Some []" unfolding tidy_def by blast
  qed
  from assms(2) have "nodeAt t [j] = Some (kids t ! j)" by simp
  with assms(1) show "children (kids t ! j) \<noteq> Some []" unfolding tidy_def by blast
qed

lemma tidy_same_kids: "tidy m \<Longrightarrow> kids m' = kids m \<Longrightarrow> tidy m'"
  unfolding tidy_def using nodeAt_same_kids[of m' m] by simp

lemma tidy_withChildren:
  assumes "\<forall>c\<in>set cs. tidy c \<and> children c \<noteq> Some []"
  shows "tidy (withChildren t cs)"
  unfolding tidy_def
proof (intro allI impI)
  fix q n assume q: "q \<noteq> []" and n: "nodeAt (withChildren t cs) q = Some n"
  from q obtain i q' where iq: "q = i # q'" by (cases q) auto
  with n have i: "i < length cs" and sub: "nodeAt (cs ! i) q' = Some n"
    by (simp_all split: if_splits)
  from i assms have c: "tidy (cs ! i)" "children (cs ! i) \<noteq> Some []" by simp_all
  show "children n \<noteq> Some []"
  proof (cases "q' = []")
    case True
    with sub c(2) show ?thesis by simp
  next
    case False
    with sub c(1) show ?thesis unfolding tidy_def by blast
  qed
qed

lemma tidy_update:
  assumes "tidy t" and "tidy m'" and "children m' \<noteq> Some []"
  shows "tidy (withChildren t ((kids t)[j := m']))"
proof (rule tidy_withChildren, rule ballI)
  fix c assume "c \<in> set ((kids t)[j := m'])"
  then have "c = m' \<or> c \<in> set (kids t)"
    using set_update_subset_insert[of "kids t" j m'] by auto
  then show "tidy c \<and> children c \<noteq> Some []"
  proof
    assume "c = m'" with assms(2,3) show ?thesis by simp
  next
    assume "c \<in> set (kids t)"
    then obtain i where "i < length (kids t)" "c = kids t ! i" by (auto simp: in_set_conv_nth)
    with tidy_child[OF assms(1)] show ?thesis by simp
  qed
qed

lemma tidy_append:
  assumes "tidy t" and "tidy m'" and "children m' \<noteq> Some []"
  shows "tidy (withChildren t (kids t @ [m']))"
proof (rule tidy_withChildren, rule ballI)
  fix c assume "c \<in> set (kids t @ [m'])"
  then have "c = m' \<or> c \<in> set (kids t)" by auto
  then show "tidy c \<and> children c \<noteq> Some []"
  proof
    assume "c = m'" with assms(2,3) show ?thesis by simp
  next
    assume "c \<in> set (kids t)"
    then obtain i where "i < length (kids t)" "c = kids t ! i" by (auto simp: in_set_conv_nth)
    with tidy_child[OF assms(1)] show ?thesis by simp
  qed
qed

lemma addCallToTree_tidy:
  "index < length stk \<Longrightarrow> addCallToTree parse t call stk index = Inr t' \<Longrightarrow> tidy t \<Longrightarrow>
   tidy t' \<and> children t' \<noteq> Some [] \<and> children t' \<noteq> None"
proof (induction "length stk - index" arbitrary: index t t')
  case 0
  then show ?case by simp
next
  case (Suc d)
  let ?find = "findIndex (matchesCall parse (stk ! index) call) (kids t)"
  let ?s = "fst (getStartAndEndTimes parse (CallJSONRaw.perf call))"
  let ?e = "snd (getStartAndEndTimes parse (CallJSONRaw.perf call))"
  show ?case
  proof (cases "Suc index = length stk")
    case True
    show ?thesis
    proof (cases ?find)
      case None
      let ?leaf = "StackTreeNode None (getNameFromCell (stk ! index)) ?s ?e (Some call)"
      from Suc.prems(2) have t': "t' = withChildren t (kids t @ [?leaf])"
        by (simp add: addCallToTree_leaf_new[OF True None])
      have "tidy ?leaf" by (rule tidy_no_kids) simp
      with Suc.prems(3) have "tidy t'" unfolding t' by (intro tidy_append) simp_all
      then show ?thesis by (simp add: t')
    next
      case (Some j)
      let ?m = "kids t ! j"
      let ?closed = "StackTreeNode (children ?m) (name ?m) ?s ?e (Some call)"
      from Some have j: "j < length (kids t)" by (simp add: findIndex_Some_iff)
      from Suc.prems(2) have t': "t' = withChildren t ((kids t)[j := ?closed])"
        by (simp add: addCallToTree_leaf_match[OF True Some])
      from tidy_child[OF Suc.prems(3) j] have "tidy ?closed" "children ?closed \<noteq> Some []"
        by (auto intro: tidy_same_kids)
      with Suc.prems(3) have "tidy t'" unfolding t' by (intro tidy_update)
      with j show ?thesis by (auto simp: t')
    qed
  next
    case False
    with Suc.prems have lt: "Suc index < length stk" by simp
    from Suc.hyps(2) have d: "d = length stk - Suc index" by simp
    show ?thesis
    proof (cases ?find)
      case None
      let ?m0 = "StackTreeNode (Some []) (getNameFromCell (stk ! index)) None None None"
      from Suc.prems(2) obtain m' where m': "addCallToTree parse ?m0 call stk (Suc index) = Inr m'"
        and t': "t' = withChildren t (kids t @ [m'])"
        by (auto simp: addCallToTree_inner_new[OF lt None] split: sum.splits)
      have "tidy ?m0" by (rule tidy_no_kids) simp
      from Suc.hyps(1)[OF d lt m' this] Suc.prems(3) have "tidy t'"
        unfolding t' by (intro tidy_append) simp_all
      then show ?thesis by (simp add: t')
    next
      case (Some j)
      from Some have j: "j < length (kids t)" by (simp add: findIndex_Some_iff)
      from Suc.prems(2) obtain m' where
        m': "addCallToTree parse (kids t ! j) call stk (Suc index) = Inr m'"
        and t': "t' = withChildren t ((kids t)[j := m'])"
        by (auto simp: addCallToTree_inner_match[OF lt Some] split: sum.splits)
      from Suc.hyps(1)[OF d lt m' tidy_child(1)[OF Suc.prems(3) j]] Suc.prems(3) have "tidy t'"
        unfolding t' by (intro tidy_update) simp_all
      with j show ?thesis by (auto simp: t')
    qed
  qed
qed

lemma addCalls_tidy:
  "addCalls parse t cs = Inr t' \<Longrightarrow> tidy t \<Longrightarrow> children t \<noteq> None \<Longrightarrow>
   tidy t' \<and> children t' \<noteq> None"
proof (induction cs arbitrary: t)
  case Nil
  then show ?case by simp
next
  case (Cons c cs)
  from Cons.prems(1) obtain t1 where t1: "addCallToTree parse t c (stack c) 0 = Inr t1"
    and rest: "addCalls parse t1 cs = Inr t'"
    by (auto split: sum.splits)
  from addCallToTree_tidy[OF addCallToTree_Inr_index[OF t1] t1 Cons.prems(2)]
  have "tidy t1" "children t1 \<noteq> None" by simp_all
  from Cons.IH[OF rest this] show ?case .
qed

lemma appendsOnly_refl: "appendsOnly t t"
  by (simp add: appendsOnly_def)

lemma appendsOnly_same:
  "kids n' = kids n \<Longrightarrow>
   (\<exists>added. length added \<le> 1 \<and> kids n' = kids n @ added) \<or>
   (\<exists>j c'. j < length (kids n) \<and> name c' = name (kids n ! j) \<and> kids n' = (kids n)[j := c'])"
  by simp

lemma appendsOnly_update:
  assumes j: "j < length (kids t)" and nm: "name m' = name (kids t ! j)"
    and sub: "appendsOnly (kids t ! j) m'"
  shows "appendsOnly t (withChildren t ((kids t)[j := m']))"
  unfolding appendsOnly_def
proof (intro allI impI)
  fix q n n'
  assume old: "nodeAt t q = Some n" and new: "nodeAt (withChildren t ((kids t)[j := m'])) q = Some n'"
  show "(\<exists>added. length added \<le> 1 \<and> kids n' = kids n @ added) \<or>
      (\<exists>j c'. j < length (kids n) \<and> name c' = name (kids n ! j) \<and> kids n' = (kids n)[j := c'])"
  proof (cases q)
    case Nil
    with old new have "n = t" "n' = withChildren t ((kids t)[j := m'])" by simp_all
    with j nm have "j < length (kids n) \<and> name m' = name (kids n ! j) \<and>
        kids n' = (kids n)[j := m']" by simp
    then show ?thesis by blast
  next
    case (Cons i q')
    show ?thesis
    proof (cases "i = j")
      case True
      with old new Cons j have "nodeAt (kids t ! j) q' = Some n" "nodeAt m' q' = Some n'"
        by simp_all
      with sub show ?thesis unfolding appendsOnly_def by blast
    next
      case False
      with old new Cons have "n' = n" by (simp split: if_splits)
      then show ?thesis by (intro appendsOnly_same) simp
    qed
  qed
qed

lemma appendsOnly_append: "appendsOnly t (withChildren t (kids t @ [m]))"
  unfolding appendsOnly_def
proof (intro allI impI)
  fix q n n'
  assume old: "nodeAt t q = Some n" and new: "nodeAt (withChildren t (kids t @ [m])) q = Some n'"
  show "(\<exists>added. length added \<le> 1 \<and> kids n' = kids n @ added) \<or>
      (\<exists>j c'. j < length (kids n) \<and> name c' = name (kids n ! j) \<and> kids n' = (kids n)[j := c'])"
  proof (cases q)
    case Nil
    with old new have "n = t" "n' = withChildren t (kids t @ [m])" by simp_all
    then have "length [m] \<le> 1 \<and> kids n' = kids n @ [m]"
      by simp
    then show ?thesis by blast
  next
    case (Cons i q')
    with old new have "n' = n" by (simp add: nth_append split: if_splits)
    then show ?thesis by (intro appendsOnly_same) simp
  qed
qed

lemma appendsOnly_close: "appendsOnly m (StackTreeNode (children m) (name m) s e r)"
  unfolding appendsOnly_def
proof (intro allI impI)
  fix q n n'
  assume old: "nodeAt m q = Some n"
    and new: "nodeAt (StackTreeNode (children m) (name m) s e r) q = Some n'"
  show "(\<exists>added. length added \<le> 1 \<and> kids n' = kids n @ added) \<or>
      (\<exists>j c'. j < length (kids n) \<and> name c' = name (kids n ! j) \<and> kids n' = (kids n)[j := c'])"
  proof (cases "q = []")
    case True
    with old new have "kids n' = kids n" by auto
    then show ?thesis by (rule appendsOnly_same)
  next
    case False
    with old new nodeAt_same_kids[of "StackTreeNode (children m) (name m) s e r" m q]
    have "n' = n" by simp
    then show ?thesis by (intro appendsOnly_same) simp
  qed
qed

lemma addCallToTree_appendsOnly:
  "index < length stk \<Longrightarrow> addCallToTree parse t call stk index = Inr t' \<Longrightarrow> appendsOnly t t'"
proof (induction "length stk - index" arbitrary: index t t')
  case 0
  then show ?case by simp
next
  case (Suc d)
  let ?find = "findIndex (matchesCall parse (stk ! index) call) (kids t)"
  show ?case
  proof (cases "Suc index = length stk")
    case True
    show ?thesis
    proof (cases ?find)
      case None
      from Suc.prems(2) show ?thesis
        by (auto simp: addCallToTree_leaf_new[OF True None] appendsOnly_append)
    next
      case (Some j)
      from Some have j: "j < length (kids t)" by (simp add: findIndex_Some_iff)
      from Suc.prems(2) show ?thesis
        by (auto simp: addCallToTree_leaf_match[OF True Some]
            intro!: appendsOnly_update[OF j] appendsOnly_close)
    qed
  next
    case False
    with Suc.prems have lt: "Suc index < length stk" by simp
    from Suc.hyps(2) have d: "d = length stk - Suc index" by simp
    show ?thesis
    proof (cases ?find)
      case None
      from Suc.prems(2) show ?thesis
        by (auto simp: addCallToTree_inner_new[OF lt None] appendsOnly_append split: sum.splits)
    next
      case (Some j)
      from Some have j: "j < length (kids t)" by (simp add: findIndex_Some_iff)
      from Suc.prems(2) obtain m' where
        m': "addCallToTree parse (kids t ! j) call stk (Suc index) = Inr m'"
        and t': "t' = withChildren t ((kids t)[j := m'])"
        by (auto simp: addCallToTree_inner_match[OF lt Some] split: sum.splits)
      from addCallToTree_root[OF m'] have "name m' = name (kids t ! j)" by simp
      with Suc.hyps(1)[OF d lt m'] show ?thesis
        unfolding t' by (intro appendsOnly_update[OF j])
    qed
  qed
qed


text \<open>
  C8, as the code has it. In the tree that is returned the root has a children array,
  which is empty when the record has no calls; every other node has no children field
  or an array with at least one child. The tree that is returned is made step by step,
  one step for each call, and a step changes the children array of a node that was
  there in one of two ways only: it puts at most one child more at its end, leaving
  the children that were there as they were and where they were, or it replaces one
  child in its place by a node of the same name, and adds none. So every array lists
  its children in the order in which they were added.
\<close>

theorem children_field:
  assumes "createTreeFromCalls parse recordJSON = Inr tree"
  shows "(\<exists>cs. children tree = Some cs) \<and>
     (\<forall>q n. q \<noteq> [] \<longrightarrow> nodeAt tree q = Some n \<longrightarrow> children n \<noteq> Some []) \<and>
     (\<forall>i<length (calls recordJSON). \<exists>before after.
        addCalls parse (rootOf parse recordJSON) (take i (calls recordJSON)) = Inr before \<and>
        addCallToTree parse before (calls recordJSON ! i) (stack (calls recordJSON ! i)) 0 = Inr after \<and>
        addCalls parse after (drop (Suc i) (calls recordJSON)) = Inr tree \<and>
        (\<forall>q n n'. nodeAt before q = Some n \<longrightarrow> nodeAt after q = Some n' \<longrightarrow>
           (\<exists>added. length added \<le> 1 \<and> kids n' = kids n @ added) \<or>
           (\<exists>j c'. j < length (kids n) \<and> name c' = name (kids n ! j) \<and>
              kids n' = (kids n)[j := c'])))"
proof (intro conjI allI impI)
  from assms have run: "addCalls parse (rootOf parse recordJSON) (calls recordJSON) = Inr tree"
    by (simp add: createTreeFromCalls_def)
  have "tidy (rootOf parse recordJSON)" "children (rootOf parse recordJSON) \<noteq> None"
    by (simp_all add: rootOf_def tidy_no_kids)
  from addCalls_tidy[OF run this] have t: "tidy tree" "children tree \<noteq> None" by simp_all
  from t(2) show "\<exists>cs. children tree = Some cs" by auto
  {
    fix q n assume "q \<noteq> []" "nodeAt tree q = Some n"
    with t(1) show "children n \<noteq> Some []" unfolding tidy_def by blast
  }
  fix i assume i: "i < length (calls recordJSON)"
  let ?c = "calls recordJSON ! i"
  from addCalls_split[OF run i] obtain before after where
    before: "addCalls parse (rootOf parse recordJSON) (take i (calls recordJSON)) = Inr before"
    and after: "addCallToTree parse before ?c (stack ?c) 0 = Inr after"
    and rest: "addCalls parse after (drop (Suc i) (calls recordJSON)) = Inr tree"
    by blast
  from addCallToTree_appendsOnly[OF addCallToTree_Inr_index[OF after] after]
  have "\<forall>q n n'. nodeAt before q = Some n \<longrightarrow> nodeAt after q = Some n' \<longrightarrow>
      (\<exists>added. length added \<le> 1 \<and> kids n' = kids n @ added) \<or>
      (\<exists>j c'. j < length (kids n) \<and> name c' = name (kids n ! j) \<and>
         kids n' = (kids n)[j := c'])"
    by (simp only: appendsOnly_def)
  with before after rest show "\<exists>before after.
        addCalls parse (rootOf parse recordJSON) (take i (calls recordJSON)) = Inr before \<and>
        addCallToTree parse before ?c (stack ?c) 0 = Inr after \<and>
        addCalls parse after (drop (Suc i) (calls recordJSON)) = Inr tree \<and>
        (\<forall>q n n'. nodeAt before q = Some n \<longrightarrow> nodeAt after q = Some n' \<longrightarrow>
           (\<exists>added. length added \<le> 1 \<and> kids n' = kids n @ added) \<or>
           (\<exists>j c'. j < length (kids n) \<and> name c' = name (kids n ! j) \<and>
              kids n' = (kids n)[j := c']))"
    by (intro exI[of _ before] exI[of _ after]) simp
qed

theorem children_field_witness:
  "createTreeFromCalls isoClock nestedRun = Inr nestedTree \<and>
   (\<exists>cs. children nestedTree = Some cs) \<and>
   (\<exists>n. nodeAt nestedTree [0] = Some n \<and> children n \<noteq> Some []) \<and>
   (\<exists>n. nodeAt nestedTree [0, 0] = Some n \<and> children n \<noteq> Some []) \<and>
   (\<exists>before after.
      addCalls isoClock (rootOf isoClock nestedRun) (take 1 (calls nestedRun)) = Inr before \<and>
      addCallToTree isoClock before (calls nestedRun ! 1) (stack (calls nestedRun ! 1)) 0 = Inr after \<and>
      addCalls isoClock after (drop (Suc 1) (calls nestedRun)) = Inr nestedTree \<and>
      (\<forall>q n n'. nodeAt before q = Some n \<longrightarrow> nodeAt after q = Some n' \<longrightarrow>
         (\<exists>added. length added \<le> 1 \<and> kids n' = kids n @ added) \<or>
         (\<exists>j c'. j < length (kids n) \<and> name c' = name (kids n ! j) \<and>
            kids n' = (kids n)[j := c'])))"
proof -
  note parts = children_field[OF nestedRun_tree]
  from parts have a: "\<exists>cs. children nestedTree = Some cs" by (rule conjunct1)
  from parts have b: "\<forall>q n. q \<noteq> [] \<longrightarrow> nodeAt nestedTree q = Some n \<longrightarrow> children n \<noteq> Some []"
    by (elim conjE)
  have z: "1 < length (calls nestedRun)" by (simp add: nestedRun_def)
  from parts have steps: "\<forall>i<length (calls nestedRun). \<exists>before after.
        addCalls isoClock (rootOf isoClock nestedRun) (take i (calls nestedRun)) = Inr before \<and>
        addCallToTree isoClock before (calls nestedRun ! i) (stack (calls nestedRun ! i)) 0 = Inr after \<and>
        addCalls isoClock after (drop (Suc i) (calls nestedRun)) = Inr nestedTree \<and>
        (\<forall>q n n'. nodeAt before q = Some n \<longrightarrow> nodeAt after q = Some n' \<longrightarrow>
           (\<exists>added. length added \<le> 1 \<and> kids n' = kids n @ added) \<or>
           (\<exists>j c'. j < length (kids n) \<and> name c' = name (kids n ! j) \<and>
              kids n' = (kids n)[j := c']))"
    by (elim conjE)
  note step = steps[rule_format, OF z]
  have e: "nodeAt nestedTree [0] \<noteq> None" "nodeAt nestedTree [0, 0] \<noteq> None"
    by (simp_all add: nestedTree_def)
  from e(1) obtain n1 where n1: "nodeAt nestedTree [0] = Some n1" by blast
  from e(2) obtain n2 where n2: "nodeAt nestedTree [0, 0] = Some n2" by blast
  from b n1 have c1: "children n1 \<noteq> Some []" by blast
  from b n2 have c2: "children n2 \<noteq> Some []" by blast
  show ?thesis
    by (intro conjI nestedRun_tree a exI[of _ n1] exI[of _ n2] n1 n2 c1 c2 step)
qed

text \<open>
  C8 as stated fails at the root: for a record without calls no child is ever added,
  and the root that is returned has a children array, the empty one.
\<close>

theorem children_field_counterexample:
  "createTreeFromCalls isoClock uncalledRun =
     Inr (StackTreeNode (Some []) ''App'' (Some (ValidDate 2)) (Some (ValidDate 8)) None)"
  by (simp add: createTreeFromCalls_def uncalledRun_def rootOf_def isoClock_def interval_def)

subsection \<open>The leaf step\<close>

text \<open>
  C2, as the code has it. At the last index of the stack, with the test for a match
  that the code decides (\<open>containment\<close>: the names agree, both dates of the invocation
  are valid, the child's start is absent and the invocation starts at or after the
  epoch or it is a valid date not after the invocation's start, the child's end is
  absent or a valid date not before the invocation's end): if child \<open>j\<close> is the first
  that passes, the call returns the tree in which that child has the invocation's
  start, end and \<^verbatim>\<open>raw\<close> and its old name and children, every other child and the
  node itself are as before, and no child is added; if no child passes, the call
  returns the tree with one more child at the end, which has the name of the cell, the
  invocation's start, end and \<^verbatim>\<open>raw\<close>, and no children. Nothing below is visited.
\<close>

theorem leaf_step:
  assumes "Suc index = length stk"
  shows "(\<forall>j. j < length (kids tree) \<and> containment parse (stk ! index) call (kids tree ! j) \<and>
             (\<forall>i<j. \<not> containment parse (stk ! index) call (kids tree ! i)) \<longrightarrow>
           (\<exists>tree'. addCallToTree parse tree call stk index = Inr tree' \<and>
              name tree' = name tree \<and> startTime tree' = startTime tree \<and>
              endTime tree' = endTime tree \<and> raw tree' = raw tree \<and>
              length (kids tree') = length (kids tree) \<and>
              (\<forall>i<length (kids tree). i \<noteq> j \<longrightarrow> kids tree' ! i = kids tree ! i) \<and>
              name (kids tree' ! j) = name (kids tree ! j) \<and>
              children (kids tree' ! j) = children (kids tree ! j) \<and>
              startTime (kids tree' ! j) = fst (getStartAndEndTimes parse (CallJSONRaw.perf call)) \<and>
              endTime (kids tree' ! j) = snd (getStartAndEndTimes parse (CallJSONRaw.perf call)) \<and>
              raw (kids tree' ! j) = Some call)) \<and>
         ((\<forall>c\<in>set (kids tree). \<not> containment parse (stk ! index) call c) \<longrightarrow>
           (\<exists>tree'. addCallToTree parse tree call stk index = Inr tree' \<and>
              name tree' = name tree \<and> startTime tree' = startTime tree \<and>
              endTime tree' = endTime tree \<and> raw tree' = raw tree \<and>
              kids tree' = kids tree @
                [StackTreeNode None (getNameFromCell (stk ! index))
                   (fst (getStartAndEndTimes parse (CallJSONRaw.perf call)))
                   (snd (getStartAndEndTimes parse (CallJSONRaw.perf call)))
                   (Some call)]))"
proof (intro conjI allI impI)
  fix j
  assume "j < length (kids tree) \<and> containment parse (stk ! index) call (kids tree ! j) \<and>
      (\<forall>i<j. \<not> containment parse (stk ! index) call (kids tree ! i))"
  then have find: "findIndex (matchesCall parse (stk ! index) call) (kids tree) = Some j"
    and j: "j < length (kids tree)"
    by (simp_all add: findIndex_Some_iff matchesCall_containment)
  show "\<exists>tree'. addCallToTree parse tree call stk index = Inr tree' \<and>
      name tree' = name tree \<and> startTime tree' = startTime tree \<and>
      endTime tree' = endTime tree \<and> raw tree' = raw tree \<and>
      length (kids tree') = length (kids tree) \<and>
      (\<forall>i<length (kids tree). i \<noteq> j \<longrightarrow> kids tree' ! i = kids tree ! i) \<and>
      name (kids tree' ! j) = name (kids tree ! j) \<and>
      children (kids tree' ! j) = children (kids tree ! j) \<and>
      startTime (kids tree' ! j) = fst (getStartAndEndTimes parse (CallJSONRaw.perf call)) \<and>
      endTime (kids tree' ! j) = snd (getStartAndEndTimes parse (CallJSONRaw.perf call)) \<and>
      raw (kids tree' ! j) = Some call"
    using j by (simp add: addCallToTree_leaf_match[OF assms find])
next
  assume "\<forall>c\<in>set (kids tree). \<not> containment parse (stk ! index) call c"
  then have find: "findIndex (matchesCall parse (stk ! index) call) (kids tree) = None"
    by (simp add: findIndex_None_iff matchesCall_containment)
  show "\<exists>tree'. addCallToTree parse tree call stk index = Inr tree' \<and>
      name tree' = name tree \<and> startTime tree' = startTime tree \<and>
      endTime tree' = endTime tree \<and> raw tree' = raw tree \<and>
      kids tree' = kids tree @
        [StackTreeNode None (getNameFromCell (stk ! index))
           (fst (getStartAndEndTimes parse (CallJSONRaw.perf call)))
           (snd (getStartAndEndTimes parse (CallJSONRaw.perf call)))
           (Some call)]"
    by (simp add: addCallToTree_leaf_new[OF assms find])
qed

lemma placeholderTree_kids: "kids placeholderTree = [placeholder ''retriever'']"
  by (simp add: placeholderTree_def)

theorem leaf_step_witness:
  "Suc 0 = length (stack retrieverCall) \<and> 0 < length (kids placeholderTree) \<and>
   containment isoClock (stack retrieverCall ! 0) retrieverCall (kids placeholderTree ! 0) \<and>
   (\<exists>tree'. addCallToTree isoClock placeholderTree retrieverCall (stack retrieverCall) 0 = Inr tree' \<and>
      length (kids tree') = length (kids placeholderTree) \<and>
      children (kids tree' ! 0) = Some [] \<and>
      startTime (kids tree' ! 0) = Some (ValidDate 0) \<and>
      endTime (kids tree' ! 0) = Some (ValidDate 10) \<and>
      raw (kids tree' ! 0) = Some retrieverCall)"
proof -
  have a: "Suc 0 = length (stack retrieverCall)" by (simp add: retrieverCall_def)
  have b: "0 < length (kids placeholderTree) \<and>
      containment isoClock (stack retrieverCall ! 0) retrieverCall (kids placeholderTree ! 0) \<and>
      (\<forall>i<0. \<not> containment isoClock (stack retrieverCall ! 0) retrieverCall (kids placeholderTree ! i))"
    by (simp add: placeholderTree_kids retrieverCall_def containment_def placeholder_def
        frame_def getNameFromCell_def isoClock_def interval_def)
  have c: "children (kids placeholderTree ! 0) = Some []"
    "fst (getStartAndEndTimes isoClock (CallJSONRaw.perf retrieverCall)) = Some (ValidDate 0)"
    "snd (getStartAndEndTimes isoClock (CallJSONRaw.perf retrieverCall)) = Some (ValidDate 10)"
    by (simp_all add: placeholderTree_kids placeholder_def retrieverCall_def
        getStartAndEndTimes_def truthy_def isoClock_def interval_def)
  from leaf_step[OF a, of placeholderTree isoClock retrieverCall] b
  obtain tree' where
    "addCallToTree isoClock placeholderTree retrieverCall (stack retrieverCall) 0 = Inr tree'"
    "length (kids tree') = length (kids placeholderTree)"
    "children (kids tree' ! 0) = children (kids placeholderTree ! 0)"
    "startTime (kids tree' ! 0) = fst (getStartAndEndTimes isoClock (CallJSONRaw.perf retrieverCall))"
    "endTime (kids tree' ! 0) = snd (getStartAndEndTimes isoClock (CallJSONRaw.perf retrieverCall))"
    "raw (kids tree' ! 0) = Some retrieverCall"
    by blast
  with a b c show ?thesis by auto
qed

text \<open>
  C2 as stated fails: a placeholder child passes the test in the words of the
  specification for an invocation that starts before the epoch and for one without a
  start, and in both cases it is left as it is and a second child of the same name is
  appended.
\<close>

theorem leaf_step_counterexample:
  "statedContainment isoClock (stack preEpochCall ! 0) preEpochCall (kids placeholderTree ! 0) \<and>
   addCallToTree isoClock placeholderTree preEpochCall (stack preEpochCall) 0 =
     Inr (StackTreeNode
           (Some [placeholder ''retriever'',
                  StackTreeNode None ''retriever'' (Some (ValidDate (- 1000)))
                    (Some (ValidDate 10)) (Some preEpochCall)])
           ''App'' None None None) \<and>
   statedContainment isoClock (stack unstartedCall ! 0) unstartedCall (kids placeholderTree ! 0) \<and>
   addCallToTree isoClock placeholderTree unstartedCall (stack unstartedCall) 0 =
     Inr (StackTreeNode
           (Some [placeholder ''retriever'',
                  StackTreeNode None ''retriever'' None (Some (ValidDate 10)) (Some unstartedCall)])
           ''App'' None None None)"
  by (simp add: placeholderTree_def statedContainment_def preEpochCall_def unstartedCall_def
      placeholder_def frame_def getNameFromCell_def isoClock_def interval_def js_ge_def
      addCallToTree.simps findMatchingNode_def stackAt_def nameOfCell_def kids_def
      matchesCall_def getStartAndEndTimes_def truthy_def withChildren_def)

section \<open>Properties of the functions on the store\<close>

subsection \<open>What is written\<close>

declare addCallToTree_store.simps [simp del]

lemma getNode_Some:
  "getNode h a = Some (cs, n, s, e, r) \<longleftrightarrow> a < length h \<and> h ! a = NodeObj cs n s e r"
  by (auto simp: getNode_def split: obj.splits)

lemma getCall_Some: "getCall h a = Some c \<longleftrightarrow> a < length h \<and> h ! a = CallObj c"
  by (auto simp: getCall_def split: obj.splits)

lemma findRef_mem: "findRef parse h cell call as = Inr (Some m) \<Longrightarrow> m \<in> set as"
  by (induction as) (auto split: option.splits if_splits)

lemma addCallToTree_store_Inr_index:
  "addCallToTree_store parse h tree call stk index = Inr h' \<Longrightarrow> index < length stk"
  by (rule ccontr, subst (asm) addCallToTree_store.simps)
     (auto simp: findMatchingRef_def stackAt_def nameOfCell_def
       split: option.splits sum.splits if_splits)

lemma owned_update:
  assumes "owned f0 R h" and "x < length h"
    and "\<forall>k\<in>set (refsOf cs). f0 \<le> k \<and> k < length h"
    and "r = None \<or> (\<exists>k\<in>R. r = Some k)"
  shows "owned f0 R (h[x := NodeObj cs n s e r])"
  using assms unfolding owned_def
  by (auto simp: nth_list_update)

lemma owned_node:
  assumes "owned f0 R h" and "f0 \<le> x" and "getNode h x = Some (cs, n, s, e, r)"
  shows "\<forall>k\<in>set (refsOf cs). f0 \<le> k \<and> k < length h"
    and "r = None \<or> (\<exists>k\<in>R. r = Some k)"
proof -
  from assms(3) have x: "x < length h" "h ! x = NodeObj cs n s e r"
    by (simp_all add: getNode_Some)
  from assms(1,2) x(1) obtain cs' n' s' e' r' where "h ! x = NodeObj cs' n' s' e' r'"
    "\<forall>k\<in>set (refsOf cs'). f0 \<le> k \<and> k < length h" "r' = None \<or> (\<exists>k\<in>R. r' = Some k)"
    unfolding owned_def by blast
  with x(2) show "\<forall>k\<in>set (refsOf cs). f0 \<le> k \<and> k < length h"
    and "r = None \<or> (\<exists>k\<in>R. r = Some k)" by simp_all
qed

lemma owned_ensure:
  assumes "owned f0 R h" and "f0 \<le> tree" and "getNode h tree = Some (cs, n, s, e, r)"
  shows "owned f0 R (h[tree := NodeObj (Some (refsOf cs)) n s e r])"
proof (rule owned_update[OF assms(1)])
  from assms(3) show "tree < length h" by (simp add: getNode_Some)
  from owned_node(1)[OF assms] show "\<forall>k\<in>set (refsOf (Some (refsOf cs))). f0 \<le> k \<and> k < length h"
    by (simp add: refsOf_def)
  from owned_node(2)[OF assms] show "r = None \<or> (\<exists>k\<in>R. r = Some k)" .
qed

lemma owned_push:
  assumes "owned f0 R h" and "f0 \<le> tree" and "getNode h tree = Some (cs, n, s, e, r)"
    and "\<forall>k\<in>set (refsOf ncs). f0 \<le> k \<and> k < length h"
    and "nr = None \<or> (\<exists>k\<in>R. nr = Some k)"
  shows "owned f0 R (push h tree (NodeObj ncs nn ns ne nr))"
proof -
  from assms(3) have t: "tree < length h" "h ! tree = NodeObj cs n s e r"
    by (simp_all add: getNode_Some)
  from owned_node[OF assms(1-3)] have kids: "\<forall>k\<in>set (refsOf cs). f0 \<le> k \<and> k < length h"
    and raw: "r = None \<or> (\<exists>k\<in>R. r = Some k)" by simp_all
  have "owned f0 R (h @ [NodeObj ncs nn ns ne nr])"
    using assms(1,4,5) unfolding owned_def
    by (auto simp: nth_append less_Suc_eq)
  then have "owned f0 R ((h @ [NodeObj ncs nn ns ne nr])
      [tree := NodeObj (Some (refsOf cs @ [length h])) n s e r])"
  proof (rule owned_update)
    from t show "tree < length (h @ [NodeObj ncs nn ns ne nr])" by simp
    from kids assms(1) show "\<forall>k\<in>set (refsOf (Some (refsOf cs @ [length h]))).
        f0 \<le> k \<and> k < length (h @ [NodeObj ncs nn ns ne nr])"
      by (auto simp: refsOf_def owned_def)
    from raw show "r = None \<or> (\<exists>k\<in>R. r = Some k)" .
  qed
  with assms(3) show ?thesis by (simp add: push_def)
qed

lemma take_push:
  assumes "f0 \<le> tree" and "f0 \<le> length h"
  shows "take f0 (push h tree node) = take f0 h"
  using assms by (simp add: push_def split: option.splits)

lemma length_push: "length h \<le> length (push h tree node)"
  by (simp add: push_def split: option.splits)

lemma addCallToTree_store_frame:
  "owned f0 R h \<Longrightarrow> f0 \<le> tree \<Longrightarrow> call \<in> R \<Longrightarrow>
   addCallToTree_store parse h tree call stk index = Inr h' \<Longrightarrow>
   owned f0 R h' \<and> take f0 h' = take f0 h"
proof (induction "length stk - index" arbitrary: index h tree h')
  case 0
  from addCallToTree_store_Inr_index[OF 0(5)] 0(1) show ?case by simp
next
  case (Suc d)
  from addCallToTree_store_Inr_index[OF Suc.prems(4)] have lt: "index < length stk" .
  from Suc.prems(4) obtain cs n s e r c where
    node: "getNode h tree = Some (cs, n, s, e, r)" and call: "getCall h call = Some c"
    by (subst (asm) addCallToTree_store.simps) (auto split: option.splits)
  let ?h1 = "h[tree := NodeObj (Some (refsOf cs)) n s e r]"
  let ?s = "fst (getStartAndEndTimes parse (CallJSONRaw.perf c))"
  let ?e = "snd (getStartAndEndTimes parse (CallJSONRaw.perf c))"
  have o1: "owned f0 R ?h1" by (rule owned_ensure[OF Suc.prems(1,2) node])
  have t1: "take f0 ?h1 = take f0 h" using Suc.prems(2) by simp
  have node1: "getNode ?h1 tree = Some (Some (refsOf cs), n, s, e, r)"
    using node by (simp add: getNode_Some)
  from o1 have f0: "f0 \<le> length ?h1" by (simp add: owned_def)
  from Suc.prems(4) node call lt obtain matchingNode where
    find: "findRef parse ?h1 (stk ! index) c (refsOf cs) = Inr matchingNode"
    by (subst (asm) addCallToTree_store.simps)
       (auto simp: findMatchingRef_def stackAt_def split: sum.splits)
  show ?case
  proof (cases matchingNode)
    case None
    show ?thesis
    proof (cases "Suc index = length stk")
      case True
      from Suc.prems(4) node call lt find None True
      have h': "h' = push ?h1 tree (NodeObj None (getNameFromCell (stk ! index)) ?s ?e (Some call))"
        by (subst (asm) addCallToTree_store.simps)
           (auto simp: findMatchingRef_def stackAt_def nameOfCell_def)
      have "owned f0 R h'"
        unfolding h' using Suc.prems(3)
        by (intro owned_push[OF o1 Suc.prems(2) node1]) (auto simp: refsOf_def)
      moreover have "take f0 h' = take f0 h"
        unfolding h' using take_push[OF Suc.prems(2) f0] t1 by simp
      ultimately show ?thesis by simp
    next
      case False
      let ?h2 = "push ?h1 tree (NodeObj (Some []) (getNameFromCell (stk ! index)) None None None)"
      from Suc.prems(4) node call lt find None False
      have rec: "addCallToTree_store parse ?h2 (length h) call stk (Suc index) = Inr h'"
        by (subst (asm) addCallToTree_store.simps)
           (auto simp: findMatchingRef_def stackAt_def nameOfCell_def)
      have o2: "owned f0 R ?h2"
        by (intro owned_push[OF o1 Suc.prems(2) node1]) (auto simp: refsOf_def)
      have t2: "take f0 ?h2 = take f0 h"
        using take_push[OF Suc.prems(2) f0] t1 by simp
      from Suc.hyps(2) lt have d: "d = length stk - Suc index" by simp
      from f0 have "f0 \<le> length h" by simp
      from Suc.hyps(1)[OF d o2 this Suc.prems(3) rec] t2 show ?thesis by simp
    qed
  next
    case (Some m)
    from find Some have "m \<in> set (refsOf cs)" by (auto dest: findRef_mem)
    with owned_node(1)[OF o1 Suc.prems(2) node1] have m: "f0 \<le> m" "m < length ?h1"
      by (simp_all add: refsOf_def)
    show ?thesis
    proof (cases "Suc index = length stk")
      case True
      from Suc.prems(4) node call lt find Some True obtain mcs mn ms me mr where
        mnode: "getNode ?h1 m = Some (mcs, mn, ms, me, mr)"
        and h': "h' = ?h1[m := NodeObj mcs mn ?s ?e (Some call)]"
        by (subst (asm) addCallToTree_store.simps)
           (auto simp: findMatchingRef_def stackAt_def split: option.splits)
      have "owned f0 R h'"
        unfolding h' using Suc.prems(3) owned_node(1)[OF o1 m(1) mnode] m(2)
        by (intro owned_update[OF o1]) auto
      moreover have "take f0 h' = take f0 h"
        unfolding h' using m(1) t1 by simp
      ultimately show ?thesis by simp
    next
      case False
      from Suc.prems(4) node call lt find Some False
      have rec: "addCallToTree_store parse ?h1 m call stk (Suc index) = Inr h'"
        by (subst (asm) addCallToTree_store.simps)
           (auto simp: findMatchingRef_def stackAt_def)
      from Suc.hyps(2) lt have d: "d = length stk - Suc index" by simp
      from Suc.hyps(1)[OF d o1 m(1) Suc.prems(3) rec] t1 show ?thesis by simp
    qed
  qed
qed

lemma owned_length: "owned f0 R h \<Longrightarrow> f0 \<le> length h"
  by (simp add: owned_def)

lemma addCalls_store_frame:
  "owned f0 R (h :: 'p store) \<Longrightarrow> f0 \<le> tree \<Longrightarrow> set refs \<subseteq> R \<Longrightarrow>
   addCalls_store parse h tree refs = Inr h' \<Longrightarrow>
   owned f0 R h' \<and> take f0 h' = take f0 h"
proof (induction refs arbitrary: h)
  case Nil
  then show ?case by simp
next
  case (Cons call rest)
  from Cons.prems(4) obtain c :: "'p CallJSONRaw" and h1 where
    step: "addCallToTree_store parse h tree call (stack c) 0 = Inr h1"
    and rest: "addCalls_store parse h1 tree rest = Inr h'"
    by (auto split: option.splits sum.splits)
  from Cons.prems(3) have "call \<in> R" "set rest \<subseteq> R" by simp_all
  from addCallToTree_store_frame[OF Cons.prems(1,2) this(1) step]
  have h1: "owned f0 R h1" "take f0 h1 = take f0 h" by simp_all
  from Cons.IH[OF h1(1) Cons.prems(2) \<open>set rest \<subseteq> R\<close> rest] h1(2) show ?case by simp
qed

text \<open>
  C9. When \<^verbatim>\<open>createTreeFromCalls\<close> returns, every object that was in the store before
  the call, the invocation records among them, is as it was; the root is a new object;
  and every new object is a tree node whose \<^verbatim>\<open>raw\<close> is absent or the address of one of
  the record's invocations, a reference and not a copy. The record and its calls
  array are only read: the function takes them as values.
\<close>

theorem input_untouched:
  assumes "createTreeFromCalls_store parse h recordJSON = Inr (h', root)"
  shows "root = length h \<and> take (length h) h' = h \<and>
     (\<forall>x. length h \<le> x \<longrightarrow> x < length h' \<longrightarrow>
        (\<exists>cs n s e r. h' ! x = NodeObj cs n s e r \<and>
           (r = None \<or> (\<exists>k\<in>set (callRefs recordJSON). r = Some k))))"
proof -
  let ?root = "NodeObj (Some []) ''App''
      (Some (new_Date parse (start_time (perfOf recordJSON))))
      (Some (new_Date parse (end_time (perfOf recordJSON)))) None"
  from assms have run: "addCalls_store parse (h @ [?root]) (length h) (callRefs recordJSON) = Inr h'"
    and root: "root = length h"
    by (auto simp: createTreeFromCalls_store_def split: sum.splits)
  have "owned (length h) (set (callRefs recordJSON)) (h @ [?root])"
    by (auto simp: owned_def nth_append refsOf_def less_Suc_eq)
  from addCalls_store_frame[OF this _ _ run]
  have "owned (length h) (set (callRefs recordJSON)) h'" "take (length h) h' = h" by simp_all
  with root show ?thesis unfolding owned_def by blast
qed


lemma nestedStore_run:
  "createTreeFromCalls_store isoClock nestedStore nestedRecord = Inr (nestedStoreAfter, 2)"
  by (simp add: createTreeFromCalls_store_def nestedStoreAfter_def nestedStore_def
      nestedRecord_def isoClock_def
      interval_def retrieverCall_def getContextCall_def frame_def
      addCallToTree_store.simps findMatchingRef_def stackAt_def nameOfCell_def refsOf_def
      matchesObj_def getNameFromCell_def getStartAndEndTimes_def truthy_def js_ge_def
      getNode_def getCall_def push_def)

theorem input_untouched_witness:
  "createTreeFromCalls_store isoClock nestedStore nestedRecord = Inr (nestedStoreAfter, 2) \<and>
   2 = length nestedStore \<and> take (length nestedStore) nestedStoreAfter = nestedStore"
  using input_untouched[OF nestedStore_run] nestedStore_run by blast

subsection \<open>The store holds the tree of the functions on values\<close>

lemma treeAt_root_in: "treeAt h a t F \<Longrightarrow> a \<in> F"
  by (erule treeAt.cases) simp

lemma treeAt_nodes: "treeAt h a t F \<Longrightarrow> x \<in> F \<Longrightarrow> \<exists>v. getNode h x = Some v"
proof (induction arbitrary: x rule: treeAt.induct)
  case (node a aso t rr fp)
  from node.prems have "x = a \<or> (\<exists>i<length (kids t). x \<in> fp i)" by auto
  then show ?case
  proof
    assume "x = a" with node.hyps(1) show ?thesis by simp
  next
    assume "\<exists>i<length (kids t). x \<in> fp i"
    then obtain i where "i < length (kids t)" "x \<in> fp i" by blast
    with node.IH show ?thesis by blast
  qed
qed

lemma treeAt_frame:
  "treeAt h a t F \<Longrightarrow> (\<forall>x\<in>F. getNode h' x = getNode h x) \<Longrightarrow>
   (\<forall>k c. getCall h k = Some c \<longrightarrow> getCall h' k = Some c) \<Longrightarrow> treeAt h' a t F"
proof (induction rule: treeAt.induct)
  case (node a aso t rr fp)
  have "getNode h' a = Some (aso, name t, startTime t, endTime t, rr)"
    using node.prems(1) node.hyps(1) by simp
  moreover have "rawAt h' rr (raw t)"
    using node.hyps(2) node.prems(2) by (auto simp: rawAt_def split: option.splits)
  moreover have "\<forall>i<length (kids t). treeAt h' (refsOf aso ! i) (kids t ! i) (fp i)"
  proof (intro allI impI)
    fix i assume i: "i < length (kids t)"
    with node.prems(1) have "\<forall>x\<in>fp i. getNode h' x = getNode h x" by auto
    with node.IH i node.prems(2) show "treeAt h' (refsOf aso ! i) (kids t ! i) (fp i)" by blast
  qed
  ultimately show ?case
    using node.hyps(3,4,5,6) by (intro treeAt.node)
qed

lemma treeAt_unique: "treeAt h a t F \<Longrightarrow> treeAt h a t' F' \<Longrightarrow> t' = t"
proof (induction arbitrary: t' F' rule: treeAt.induct)
  case (node a aso t rr fp)
  from node.prems obtain aso' rr' fp' where
    n': "getNode h a = Some (aso', name t', startTime t', endTime t', rr')"
    and r': "rawAt h rr' (raw t')" and c': "(aso' = None) = (children t' = None)"
    and l': "length (refsOf aso') = length (kids t')"
    and k': "\<forall>i<length (kids t'). treeAt h (refsOf aso' ! i) (kids t' ! i) (fp' i)"
    by (auto elim: treeAt.cases)
  from n' node.hyps(1) have eq: "aso' = aso" "name t' = name t" "startTime t' = startTime t"
    "endTime t' = endTime t" "rr' = rr" by simp_all
  from r' node.hyps(2) eq have raw: "raw t' = raw t"
    by (auto simp: rawAt_def split: option.splits)
  from l' node.hyps(4) eq have len: "length (kids t') = length (kids t)" by simp
  have "kids t' = kids t"
  proof (rule nth_equalityI[OF len])
    fix i assume "i < length (kids t')"
    with len k' eq node.IH show "kids t' ! i = kids t ! i" by auto
  qed
  with c' node.hyps(3) eq have "children t' = children t"
    by (cases "children t'"; cases "children t") (auto simp: kids_def)
  with eq raw show ?case by (simp add: StackTreeNode.expand)
qed


lemma treeAt_inv:
  assumes "treeAt h a t F"
  obtains aso rr fp where
    "getNode h a = Some (aso, name t, startTime t, endTime t, rr)"
    "rawAt h rr (raw t)" "(aso = None) = (children t = None)"
    "length (refsOf aso) = length (kids t)"
    "\<And>i. i < length (kids t) \<Longrightarrow> treeAt h (refsOf aso ! i) (kids t ! i) (fp i)"
    "\<And>i. i < length (kids t) \<Longrightarrow> a \<notin> fp i"
    "\<And>i j. i < length (kids t) \<Longrightarrow> j < length (kids t) \<Longrightarrow> i \<noteq> j \<Longrightarrow> fp i \<inter> fp j = {}"
    "F = insert a (\<Union>i<length (kids t). fp i)"
  using assms
proof (cases rule: treeAt.cases)
  case (node aso rr fp)
  show ?thesis
    by (rule that[of aso rr fp]) (use node in simp_all)
qed

lemma treeAtI:
  assumes "getNode h a = Some (aso, name t, startTime t, endTime t, rr)"
    and "rawAt h rr (raw t)" and "(aso = None) = (children t = None)"
    and "length (refsOf aso) = length (kids t)"
    and "\<And>i. i < length (kids t) \<Longrightarrow> treeAt h (refsOf aso ! i) (kids t ! i) (fp i)"
    and "\<And>i. i < length (kids t) \<Longrightarrow> a \<notin> fp i"
    and "\<And>i j. i < length (kids t) \<Longrightarrow> j < length (kids t) \<Longrightarrow> i \<noteq> j \<Longrightarrow> fp i \<inter> fp j = {}"
    and "F = insert a (\<Union>i<length (kids t). fp i)"
  shows "treeAt h a t F"
  unfolding assms(8) using assms(1-7) by (intro treeAt.node) auto

lemma treeAt_below: "treeAt h a t F \<Longrightarrow> x \<in> F \<Longrightarrow> x < length h"
  by (drule (1) treeAt_nodes) (auto simp: getNode_def split: if_splits)

lemma treeAt_not_call: "treeAt h a t F \<Longrightarrow> getCall h k = Some c \<Longrightarrow> k \<notin> F"
  by (auto dest!: treeAt_nodes simp: getNode_def getCall_def split: if_splits obj.splits)

lemma rebuild_update:
  assumes "getNode h a = Some (Some as, name t, startTime t, endTime t, rr)"
    and "rawAt h rr (raw t)" and "length as = length (kids t)" and "j < length (kids t)"
    and "\<And>i. i < length (kids t) \<Longrightarrow> i \<noteq> j \<Longrightarrow> treeAt h (as ! i) (kids t ! i) (fp i)"
    and "treeAt h (as ! j) tj G"
    and "\<And>i. i < length (kids t) \<Longrightarrow> a \<notin> fp i" and "a \<notin> G"
    and "\<And>i k. i < length (kids t) \<Longrightarrow> k < length (kids t) \<Longrightarrow> i \<noteq> k \<Longrightarrow> fp i \<inter> fp k = {}"
    and "\<And>i. i < length (kids t) \<Longrightarrow> i \<noteq> j \<Longrightarrow> fp i \<inter> G = {}"
  shows "treeAt h a (withChildren t ((kids t)[j := tj]))
           (insert a (\<Union>i<length (kids t). (fp(j := G)) i))"
proof (rule treeAtI[where aso = "Some as" and rr = rr and fp = "fp(j := G)"])
  let ?t' = "withChildren t ((kids t)[j := tj])"
  show "getNode h a = Some (Some as, name ?t', startTime ?t', endTime ?t', rr)"
    using assms(1) by simp
  show "rawAt h rr (raw ?t')" using assms(2) by simp
  show "(Some as = None) = (children ?t' = None)" by simp
  show "length (refsOf (Some as)) = length (kids ?t')" using assms(3) by (simp add: refsOf_def)
  show "treeAt h (refsOf (Some as) ! i) (kids ?t' ! i) ((fp(j := G)) i)"
    if "i < length (kids ?t')" for i
    using that assms(4,5,6) by (cases "i = j") (simp_all add: refsOf_def)
  show "a \<notin> (fp(j := G)) i" if "i < length (kids ?t')" for i
    using that assms(7,8) by simp
  show "(fp(j := G)) i \<inter> (fp(j := G)) k = {}"
    if "i < length (kids ?t')" "k < length (kids ?t')" "i \<noteq> k" for i k
    using that assms(9)[of i k] assms(10)[of i] assms(10)[of k] by (auto simp: Int_commute)
  show "insert a (\<Union>i<length (kids t). (fp(j := G)) i) =
      insert a (\<Union>i<length (kids ?t'). (fp(j := G)) i)" by simp
qed

lemma rebuild_append:
  assumes "getNode h a = Some (Some (as @ [l]), name t, startTime t, endTime t, rr)"
    and "rawAt h rr (raw t)" and "length as = length (kids t)"
    and "\<And>i. i < length (kids t) \<Longrightarrow> treeAt h (as ! i) (kids t ! i) (fp i)"
    and "treeAt h l m G"
    and "\<And>i. i < length (kids t) \<Longrightarrow> a \<notin> fp i" and "a \<notin> G"
    and "\<And>i k. i < length (kids t) \<Longrightarrow> k < length (kids t) \<Longrightarrow> i \<noteq> k \<Longrightarrow> fp i \<inter> fp k = {}"
    and "\<And>i. i < length (kids t) \<Longrightarrow> fp i \<inter> G = {}"
  shows "treeAt h a (withChildren t (kids t @ [m]))
           (insert a ((\<Union>i<length (kids t). fp i) \<union> G))"
proof (rule treeAtI[where aso = "Some (as @ [l])" and rr = rr
      and fp = "fp(length (kids t) := G)"])
  let ?t' = "withChildren t (kids t @ [m])"
  let ?n = "length (kids t)"
  show "getNode h a = Some (Some (as @ [l]), name ?t', startTime ?t', endTime ?t', rr)"
    using assms(1) by simp
  show "rawAt h rr (raw ?t')" using assms(2) by simp
  show "(Some (as @ [l]) = None) = (children ?t' = None)" by simp
  show "length (refsOf (Some (as @ [l]))) = length (kids ?t')"
    using assms(3) by (simp add: refsOf_def)
  show "treeAt h (refsOf (Some (as @ [l])) ! i) (kids ?t' ! i) ((fp(?n := G)) i)"
    if "i < length (kids ?t')" for i
    using that assms(3,4,5) by (cases "i = ?n") (simp_all add: refsOf_def nth_append)
  show "a \<notin> (fp(?n := G)) i" if "i < length (kids ?t')" for i
    using that assms(6,7) by (cases "i = ?n") simp_all
  show "(fp(?n := G)) i \<inter> (fp(?n := G)) k = {}"
    if "i < length (kids ?t')" "k < length (kids ?t')" "i \<noteq> k" for i k
    using that assms(8)[of i k] assms(9)[of i] assms(9)[of k]
    by (cases "i = ?n"; cases "k = ?n") (auto simp: Int_commute)
  show "insert a ((\<Union>i<?n. fp i) \<union> G) = insert a (\<Union>i<length (kids ?t'). (fp(?n := G)) i)"
    by (auto simp: less_Suc_eq split: if_splits)
qed

lemma matchesObj_matchesCall:
  "matchesObj parse cell c (name t) (startTime t) (endTime t) = matchesCall parse cell c t"
  by (simp add: matchesObj_def matchesCall_def)

lemma findRef_sim:
  "length as = length ts \<Longrightarrow>
   (\<forall>i<length ts. \<exists>aso rr.
      getNode h (as ! i) = Some (aso, name (ts ! i), startTime (ts ! i), endTime (ts ! i), rr)) \<Longrightarrow>
   findRef parse h cell c as =
     Inr (map_option (\<lambda>j. as ! j) (findIndex (matchesCall parse cell c) ts))"
proof (induction as arbitrary: ts)
  case Nil
  then show ?case by simp
next
  case (Cons a as)
  then obtain t ts' where ts: "ts = t # ts'" by (cases ts) auto
  from Cons.prems(2) ts obtain aso rr where
    a: "getNode h a = Some (aso, name t, startTime t, endTime t, rr)" by fastforce
  from Cons.prems ts have "length as = length ts'"
    "\<forall>i<length ts'. \<exists>aso rr.
      getNode h (as ! i) = Some (aso, name (ts' ! i), startTime (ts' ! i), endTime (ts' ! i), rr)"
    by auto
  from Cons.IH[OF this] a ts show ?case
    by (simp add: matchesObj_matchesCall option.map_comp comp_def)
qed


lemma store_leaf_new:
  assumes "getNode h tree = Some (cs, n, s, e, r)" and "getCall h call = Some c"
    and "Suc index = length stk"
    and "findRef parse (h[tree := NodeObj (Some (refsOf cs)) n s e r]) (stk ! index) c (refsOf cs)
           = Inr None"
  shows "addCallToTree_store parse h tree call stk index =
     Inr (push (h[tree := NodeObj (Some (refsOf cs)) n s e r]) tree
            (NodeObj None (getNameFromCell (stk ! index))
               (fst (getStartAndEndTimes parse (CallJSONRaw.perf c)))
               (snd (getStartAndEndTimes parse (CallJSONRaw.perf c)))
               (Some call)))"
  using assms
  by (subst addCallToTree_store.simps)
     (auto simp: findMatchingRef_def stackAt_def nameOfCell_def)

lemma store_leaf_match:
  assumes "getNode h tree = Some (cs, n, s, e, r)" and "getCall h call = Some c"
    and "Suc index = length stk"
    and "findRef parse (h[tree := NodeObj (Some (refsOf cs)) n s e r]) (stk ! index) c (refsOf cs)
           = Inr (Some m)"
    and "getNode (h[tree := NodeObj (Some (refsOf cs)) n s e r]) m = Some (mcs, mn, ms, me, mr)"
  shows "addCallToTree_store parse h tree call stk index =
     Inr ((h[tree := NodeObj (Some (refsOf cs)) n s e r])[m :=
            NodeObj mcs mn
              (fst (getStartAndEndTimes parse (CallJSONRaw.perf c)))
              (snd (getStartAndEndTimes parse (CallJSONRaw.perf c)))
              (Some call)])"
  using assms
  by (subst addCallToTree_store.simps)
     (auto simp: findMatchingRef_def stackAt_def nameOfCell_def)

lemma store_inner_new:
  assumes "getNode h tree = Some (cs, n, s, e, r)" and "getCall h call = Some c"
    and "Suc index < length stk"
    and "findRef parse (h[tree := NodeObj (Some (refsOf cs)) n s e r]) (stk ! index) c (refsOf cs)
           = Inr None"
  shows "addCallToTree_store parse h tree call stk index =
     addCallToTree_store parse
       (push (h[tree := NodeObj (Some (refsOf cs)) n s e r]) tree
          (NodeObj (Some []) (getNameFromCell (stk ! index)) None None None))
       (length h) call stk (Suc index)"
  using assms
  by (subst addCallToTree_store.simps)
     (auto simp: findMatchingRef_def stackAt_def nameOfCell_def)

lemma store_inner_match:
  assumes "getNode h tree = Some (cs, n, s, e, r)" and "getCall h call = Some c"
    and "Suc index < length stk"
    and "findRef parse (h[tree := NodeObj (Some (refsOf cs)) n s e r]) (stk ! index) c (refsOf cs)
           = Inr (Some m)"
  shows "addCallToTree_store parse h tree call stk index =
     addCallToTree_store parse (h[tree := NodeObj (Some (refsOf cs)) n s e r]) m call stk
       (Suc index)"
  using assms
  by (subst addCallToTree_store.simps)
     (auto simp: findMatchingRef_def stackAt_def nameOfCell_def)

lemma getNode_update_other: "x \<noteq> a \<Longrightarrow> getNode (h[a := v]) x = getNode h x"
  by (simp add: getNode_def)

lemma getNode_update_same:
  "a < length h \<Longrightarrow> getNode (h[a := NodeObj cs n s e r]) a = Some (cs, n, s, e, r)"
  by (simp add: getNode_def)

lemma getCall_update_node:
  "getNode h a \<noteq> None \<Longrightarrow> getCall (h[a := NodeObj cs n s e r]) k = getCall h k"
  by (cases "k = a") (auto simp: getNode_def getCall_def split: if_splits obj.splits)

lemma getNode_push_other:
  "x < length h \<Longrightarrow> x \<noteq> tree \<Longrightarrow> getNode (push h tree v) x = getNode h x"
  by (auto simp: push_def getNode_def nth_append split: option.splits)

lemma getNode_push_tree:
  "getNode h tree = Some (cs, n, s, e, r) \<Longrightarrow>
   getNode (push h tree v) tree = Some (Some (refsOf cs @ [length h]), n, s, e, r)"
  by (auto simp: push_def getNode_def split: if_splits)

lemma getNode_push_new:
  "getNode h tree = Some (cs, n, s, e, r) \<Longrightarrow>
   getNode (push h tree (NodeObj ncs nn ns ne nr)) (length h) = Some (ncs, nn, ns, ne, nr)"
  by (auto simp: push_def getNode_def split: if_splits)

lemma getCall_push:
  "getCall h k = Some c \<Longrightarrow> getCall (push h tree (NodeObj ncs nn ns ne nr)) k = Some c"
  by (auto simp: push_def getNode_def getCall_def nth_append nth_list_update
      split: if_splits option.splits obj.splits)

lemma length_push_node:
  "getNode h tree = Some v \<Longrightarrow> length (push h tree v') = Suc (length h)"
  by (auto simp: push_def split: prod.splits)

lemma nth_push_other:
  "x < length h \<Longrightarrow> x \<noteq> tree \<Longrightarrow> push h tree v ! x = h ! x"
  by (auto simp: push_def nth_append split: option.splits)


lemma treeAt_getNode:
  "treeAt h a t F \<Longrightarrow> \<exists>aso rr. getNode h a = Some (aso, name t, startTime t, endTime t, rr)"
  by (erule treeAt_inv) blast

lemma getNode_nth_eq:
  "x < length h \<Longrightarrow> length h \<le> length h' \<Longrightarrow> h' ! x = h ! x \<Longrightarrow> getNode h' x = getNode h x"
  by (simp add: getNode_def)

lemma getCall_nth_eq:
  "getCall h k = Some c \<Longrightarrow> length h \<le> length h' \<Longrightarrow> h' ! k = h ! k \<Longrightarrow> getCall h' k = Some c"
  by (auto simp: getCall_def split: if_splits)

lemma getCall_not_node: "getCall h k = Some c \<Longrightarrow> getNode h a = Some v \<Longrightarrow> k \<noteq> a"
  by (auto simp: getCall_def getNode_def split: if_splits obj.splits)

lemma simulation:
  "treeAt h a t F \<Longrightarrow> getCall h call = Some c \<Longrightarrow>
   addCallToTree parse t c stk index = Inr t' \<Longrightarrow>
   \<exists>h' F'. addCallToTree_store parse h a call stk index = Inr h' \<and> treeAt h' a t' F' \<and>
     F \<subseteq> F' \<and> F' \<subseteq> F \<union> {length h..<length h'} \<and> length h \<le> length h' \<and>
     (\<forall>x<length h. x \<notin> F \<longrightarrow> h' ! x = h ! x)"
proof (induction "length stk - index" arbitrary: index h a t F t')
  case 0
  from addCallToTree_Inr_index[OF 0(4)] 0(1) show ?case by simp
next
  case (Suc d)
  from addCallToTree_Inr_index[OF Suc.prems(3)] have lt: "index < length stk" .
  note call = Suc.prems(2)
  let ?find = "findIndex (matchesCall parse (stk ! index) c) (kids t)"
  let ?s = "fst (getStartAndEndTimes parse (CallJSONRaw.perf c))"
  let ?e = "snd (getStartAndEndTimes parse (CallJSONRaw.perf c))"
  let ?n = "length (kids t)"
  from Suc.prems(1) show ?case
  proof (rule treeAt_inv)
    fix aso rr fp
    assume node: "getNode h a = Some (aso, name t, startTime t, endTime t, rr)"
      and raw: "rawAt h rr (raw t)" and cn: "(aso = None) = (children t = None)"
      and len: "length (refsOf aso) = length (kids t)"
      and sub: "\<And>i. i < length (kids t) \<Longrightarrow> treeAt h (refsOf aso ! i) (kids t ! i) (fp i)"
      and nota: "\<And>i. i < length (kids t) \<Longrightarrow> a \<notin> fp i"
      and disj: "\<And>i j. i < length (kids t) \<Longrightarrow> j < length (kids t) \<Longrightarrow> i \<noteq> j \<Longrightarrow>
          fp i \<inter> fp j = {}"
      and F: "F = insert a (\<Union>i<length (kids t). fp i)"
    let ?as = "refsOf aso"
    let ?h1 = "h[a := NodeObj (Some ?as) (name t) (startTime t) (endTime t) rr]"
    from node have alt: "a < length h" by (simp add: getNode_Some)
    have node1: "getNode ?h1 a = Some (Some ?as, name t, startTime t, endTime t, rr)"
      using alt by (simp add: getNode_update_same)
    have call1: "getCall ?h1 k = getCall h k" for k
      using node by (simp add: getCall_update_node)
    have below: "x < length h" if "i < ?n" "x \<in> fp i" for i x
      using treeAt_below[OF sub[OF that(1)] that(2)] .
    have sub1: "treeAt ?h1 (?as ! i) (kids t ! i) (fp i)" if "i < ?n" for i
    proof (rule treeAt_frame[OF sub[OF that]])
      show "\<forall>x\<in>fp i. getNode ?h1 x = getNode h x"
      proof
        fix x assume "x \<in> fp i"
        with nota[OF that] have "x \<noteq> a" by auto
        then show "getNode ?h1 x = getNode h x" by (rule getNode_update_other)
      qed
      show "\<forall>k c. getCall h k = Some c \<longrightarrow> getCall ?h1 k = Some c"
        by (simp add: call1)
    qed
    have find: "findRef parse ?h1 (stk ! index) c ?as = Inr (map_option (\<lambda>j. ?as ! j) ?find)"
    proof (rule findRef_sim[OF len])
      show "\<forall>i<?n. \<exists>aso rr. getNode ?h1 (?as ! i) =
          Some (aso, name (kids t ! i), startTime (kids t ! i), endTime (kids t ! i), rr)"
        using sub1 treeAt_getNode by blast
    qed
    show ?thesis
    proof (cases "Suc index = length stk")
      case True
      show ?thesis
      proof (cases ?find)
        case None
        let ?nm = "getNameFromCell (stk ! index)"
        let ?leaf = "StackTreeNode None ?nm ?s ?e (Some c)"
        let ?h' = "push ?h1 a (NodeObj None ?nm ?s ?e (Some call))"
        from Suc.prems(3) have t': "t' = withChildren t (kids t @ [?leaf])"
          by (simp add: addCallToTree_leaf_new[OF True None])
        have run: "addCallToTree_store parse h a call stk index = Inr ?h'"
          using store_leaf_new[OF node call True] find None by simp
        have lenh': "length ?h' = Suc (length h)"
          using length_push_node[OF node1] by simp
        have nodeh': "getNode ?h' a =
            Some (Some (?as @ [length h]), name t, startTime t, endTime t, rr)"
          using getNode_push_tree[OF node1] by (simp add: refsOf_def)
        have callh': "getCall ?h' k = Some c'" if "getCall h k = Some c'" for k c'
          using that getCall_push[of ?h1 k c' a] call1 by simp
        have other: "getNode ?h' x = getNode h x" if "x < length h" "x \<noteq> a" for x
          using that by (simp add: getNode_push_other getNode_update_other)
        have subh': "treeAt ?h' (?as ! i) (kids t ! i) (fp i)" if "i < ?n" for i
        proof (rule treeAt_frame[OF sub[OF that]])
          show "\<forall>x\<in>fp i. getNode ?h' x = getNode h x"
            using below[OF that] nota[OF that] other by blast
          show "\<forall>k c. getCall h k = Some c \<longrightarrow> getCall ?h' k = Some c"
            using callh' by blast
        qed
        have leaf: "treeAt ?h' (length h) ?leaf {length h}"
        proof (rule treeAtI[where aso = None and rr = "Some call" and fp = "\<lambda>_. {}"])
          show "getNode ?h' (length h) =
              Some (None, name ?leaf, startTime ?leaf, endTime ?leaf, Some call)"
            using getNode_push_new[OF node1] by simp
          show "rawAt ?h' (Some call) (raw ?leaf)"
            using callh'[OF call] by (simp add: rawAt_def)
        qed (simp_all add: refsOf_def)
        have "treeAt ?h' a (withChildren t (kids t @ [?leaf]))
            (insert a ((\<Union>i<?n. fp i) \<union> {length h}))"
        proof (rule rebuild_append[where as = ?as and l = "length h" and rr = rr])
          show "getNode ?h' a =
              Some (Some (?as @ [length h]), name t, startTime t, endTime t, rr)"
            by (rule nodeh')
          show "rawAt ?h' rr (raw t)"
            using raw callh' by (auto simp: rawAt_def split: option.splits)
          show "length ?as = ?n" by (rule len)
          show "treeAt ?h' (?as ! i) (kids t ! i) (fp i)" if "i < ?n" for i
            by (rule subh'[OF that])
          show "treeAt ?h' (length h) ?leaf {length h}" by (rule leaf)
          show "a \<notin> fp i" if "i < ?n" for i by (rule nota[OF that])
          show "a \<notin> {length h}" using alt by simp
          show "fp i \<inter> fp k = {}" if "i < ?n" "k < ?n" "i \<noteq> k" for i k
            by (rule disj[OF that])
          show "fp i \<inter> {length h} = {}" if "i < ?n" for i using below[OF that] by auto
        qed
        then have "treeAt ?h' a t' (insert (length h) F)"
          unfolding t' F by (simp add: insert_commute Un_commute)
        moreover have "\<forall>x<length h. x \<notin> F \<longrightarrow> ?h' ! x = h ! x"
          unfolding F by (auto simp: nth_push_other)
        moreover have "insert (length h) F \<subseteq> F \<union> {length h..<length ?h'}"
          using lenh' by auto
        ultimately show ?thesis
          using run lenh'
          by (intro exI[of _ ?h'] exI[of _ "insert (length h) F"]) auto
      next
        case (Some j)
        let ?m = "?as ! j"
        let ?tj = "kids t ! j"
        let ?closed = "StackTreeNode (children ?tj) (name ?tj) ?s ?e (Some c)"
        from Some have j: "j < ?n" by (simp add: findIndex_Some_iff)
        from Suc.prems(3) have t': "t' = withChildren t ((kids t)[j := ?closed])"
          by (simp add: addCallToTree_leaf_match[OF True Some])
        from sub1[OF j] show ?thesis
        proof (rule treeAt_inv)
          fix mso mr gp
          assume mnode: "getNode ?h1 ?m = Some (mso, name ?tj, startTime ?tj, endTime ?tj, mr)"
            and mcn: "(mso = None) = (children ?tj = None)"
            and mlen: "length (refsOf mso) = length (kids ?tj)"
            and msub: "\<And>i. i < length (kids ?tj) \<Longrightarrow>
                treeAt ?h1 (refsOf mso ! i) (kids ?tj ! i) (gp i)"
            and mnot: "\<And>i. i < length (kids ?tj) \<Longrightarrow> ?m \<notin> gp i"
            and mdisj: "\<And>i k. i < length (kids ?tj) \<Longrightarrow> k < length (kids ?tj) \<Longrightarrow> i \<noteq> k \<Longrightarrow>
                gp i \<inter> gp k = {}"
            and G: "fp j = insert ?m (\<Union>i<length (kids ?tj). gp i)"
          let ?h' = "?h1[?m := NodeObj mso (name ?tj) ?s ?e (Some call)]"
          from mnode have mlt: "?m < length h" by (simp add: getNode_Some)
          from G nota[OF j] have ma: "?m \<noteq> a" by auto
          have run: "addCallToTree_store parse h a call stk index = Inr ?h'"
            using store_leaf_match[OF node call True _ mnode] find Some by simp
          have callh': "getCall ?h' k = Some c'" if "getCall h k = Some c'" for k c'
            using that getCall_update_node[of ?h1 ?m] mnode call1 by simp
          have nodeh': "getNode ?h' a = Some (Some ?as, name t, startTime t, endTime t, rr)"
            using node1 ma by (simp add: getNode_update_other)
          have other: "getNode ?h' x = getNode h x" if "x \<noteq> a" "x \<noteq> ?m" for x
            using that by (simp add: getNode_update_other)
          have subh': "treeAt ?h' (?as ! i) (kids t ! i) (fp i)" if "i < ?n" "i \<noteq> j" for i
          proof (rule treeAt_frame[OF sub[OF that(1)]])
            from disj[OF that(1) j that(2)] G have "?m \<notin> fp i" by auto
            with nota[OF that(1)] other show "\<forall>x\<in>fp i. getNode ?h' x = getNode h x"
              by metis
            show "\<forall>k c. getCall h k = Some c \<longrightarrow> getCall ?h' k = Some c"
              using callh' by blast
          qed
          have closed: "treeAt ?h' ?m ?closed (fp j)"
          proof (rule treeAtI[where aso = mso and rr = "Some call" and fp = gp])
            show "getNode ?h' ?m =
                Some (mso, name ?closed, startTime ?closed, endTime ?closed, Some call)"
              using mlt by (simp add: getNode_update_same)
            show "rawAt ?h' (Some call) (raw ?closed)"
              using callh'[OF call] by (simp add: rawAt_def)
            show "(mso = None) = (children ?closed = None)" using mcn by simp
            show "length (refsOf mso) = length (kids ?closed)" using mlen by simp
            show "treeAt ?h' (refsOf mso ! i) (kids ?closed ! i) (gp i)"
              if "i < length (kids ?closed)" for i
            proof -
              from that have i: "i < length (kids ?tj)" by simp
              have "treeAt ?h' (refsOf mso ! i) (kids ?tj ! i) (gp i)"
              proof (rule treeAt_frame[OF msub[OF i]])
                show "\<forall>x\<in>gp i. getNode ?h' x = getNode ?h1 x"
                proof
                  fix x assume "x \<in> gp i"
                  with mnot[OF i] have "x \<noteq> ?m" by auto
                  then show "getNode ?h' x = getNode ?h1 x" by (rule getNode_update_other)
                qed
                show "\<forall>k c. getCall ?h1 k = Some c \<longrightarrow> getCall ?h' k = Some c"
                  using callh' call1 by simp
              qed
              then show ?thesis by simp
            qed
            show "?m \<notin> gp i" if "i < length (kids ?closed)" for i
              using that mnot by simp
            show "gp i \<inter> gp k = {}"
              if "i < length (kids ?closed)" "k < length (kids ?closed)" "i \<noteq> k" for i k
              using that mdisj by simp
            show "fp j = insert ?m (\<Union>i<length (kids ?closed). gp i)" using G by simp
          qed
          have "treeAt ?h' a (withChildren t ((kids t)[j := ?closed]))
              (insert a (\<Union>i<?n. (fp(j := fp j)) i))"
          proof (rule rebuild_update[where as = ?as and rr = rr])
            show "getNode ?h' a = Some (Some ?as, name t, startTime t, endTime t, rr)"
              by (rule nodeh')
            show "rawAt ?h' rr (raw t)"
              using raw callh' by (auto simp: rawAt_def split: option.splits)
            show "length ?as = ?n" by (rule len)
            show "j < ?n" by (rule j)
            show "treeAt ?h' (?as ! i) (kids t ! i) (fp i)" if "i < ?n" "i \<noteq> j" for i
              by (rule subh'[OF that])
            show "treeAt ?h' ?m ?closed (fp j)" by (rule closed)
            show "a \<notin> fp i" if "i < ?n" for i by (rule nota[OF that])
            show "a \<notin> fp j" by (rule nota[OF j])
            show "fp i \<inter> fp k = {}" if "i < ?n" "k < ?n" "i \<noteq> k" for i k
              by (rule disj[OF that])
            show "fp i \<inter> fp j = {}" if "i < ?n" "i \<noteq> j" for i
              by (rule disj[OF that(1) j that(2)])
          qed
          then have "treeAt ?h' a t' F"
            unfolding t' F by simp
          moreover have "\<forall>x<length h. x \<notin> F \<longrightarrow> ?h' ! x = h ! x"
          proof (intro allI impI)
            fix x assume "x < length h" "x \<notin> F"
            with F G j have "x \<noteq> a" "x \<noteq> ?m" by auto
            then show "?h' ! x = h ! x" by simp
          qed
          ultimately show ?thesis
            using run by (intro exI[of _ ?h'] exI[of _ F]) auto
        qed
      qed
    next
      case False
      with lt have lt': "Suc index < length stk" by simp
      from Suc.hyps(2) have d: "d = length stk - Suc index" by simp
      show ?thesis
      proof (cases ?find)
        case None
        let ?nm = "getNameFromCell (stk ! index)"
        let ?m0 = "StackTreeNode (Some []) ?nm None None None"
        let ?h2 = "push ?h1 a (NodeObj (Some []) ?nm None None None)"
        from Suc.prems(3) obtain m' where
          m': "addCallToTree parse ?m0 c stk (Suc index) = Inr m'"
          and t': "t' = withChildren t (kids t @ [m'])"
          by (auto simp: addCallToTree_inner_new[OF lt' None] split: sum.splits)
        have run: "addCallToTree_store parse h a call stk index =
            addCallToTree_store parse ?h2 (length h) call stk (Suc index)"
          using store_inner_new[OF node call lt'] find None by simp
        have lenh2: "length ?h2 = Suc (length h)"
          using length_push_node[OF node1] by simp
        have nodeh2: "getNode ?h2 a =
            Some (Some (?as @ [length h]), name t, startTime t, endTime t, rr)"
          using getNode_push_tree[OF node1] by (simp add: refsOf_def)
        have callh2: "getCall ?h2 k = Some c'" if "getCall h k = Some c'" for k c'
          using that getCall_push[of ?h1 k c' a] call1 by simp
        have nth2: "?h2 ! x = h ! x" if "x < length h" "x \<noteq> a" for x
          using that by (simp add: nth_push_other)
        have m0: "treeAt ?h2 (length h) ?m0 {length h}"
        proof (rule treeAtI[where aso = "Some []" and rr = None and fp = "\<lambda>_. {}"])
          show "getNode ?h2 (length h) =
              Some (Some [], name ?m0, startTime ?m0, endTime ?m0, None)"
            using getNode_push_new[OF node1] by simp
        qed (simp_all add: refsOf_def rawAt_def)
        from Suc.hyps(1)[OF d m0 callh2[OF call] m'] obtain h' G where
          run': "addCallToTree_store parse ?h2 (length h) call stk (Suc index) = Inr h'"
          and tm': "treeAt h' (length h) m' G"
          and G1: "{length h} \<subseteq> G" and G2: "G \<subseteq> {length h} \<union> {length ?h2..<length h'}"
          and lenh': "length ?h2 \<le> length h'"
          and frame: "\<forall>x<length ?h2. x \<notin> {length h} \<longrightarrow> h' ! x = ?h2 ! x"
          by blast
        have nth': "h' ! x = h ! x" if "x < length h" "x \<noteq> a" for x
          using that frame nth2 lenh2 by simp
        have nodeh': "getNode h' a =
            Some (Some (?as @ [length h]), name t, startTime t, endTime t, rr)"
        proof -
          from frame alt lenh2 have "h' ! a = ?h2 ! a" by simp
          with getNode_nth_eq[of a ?h2 h'] alt lenh2 lenh' nodeh2 show ?thesis by simp
        qed
        have callh': "getCall h' k = Some c'" if "getCall h k = Some c'" for k c'
        proof -
          from that have k: "k < length h" by (simp add: getCall_Some)
          with frame lenh2 have "h' ! k = ?h2 ! k" by simp
          from getCall_nth_eq[OF callh2[OF that] lenh' this] show ?thesis .
        qed
        have subh': "treeAt h' (?as ! i) (kids t ! i) (fp i)" if "i < ?n" for i
        proof (rule treeAt_frame[OF sub[OF that]])
          show "\<forall>x\<in>fp i. getNode h' x = getNode h x"
          proof
            fix x assume x: "x \<in> fp i"
            from below[OF that x] nota[OF that] x have "x < length h" "x \<noteq> a" by auto
            with nth'[OF this] lenh2 lenh' show "getNode h' x = getNode h x"
              by (intro getNode_nth_eq) simp_all
          qed
          show "\<forall>k c. getCall h k = Some c \<longrightarrow> getCall h' k = Some c"
            using callh' by blast
        qed
        have "treeAt h' a (withChildren t (kids t @ [m'])) (insert a ((\<Union>i<?n. fp i) \<union> G))"
        proof (rule rebuild_append[where as = ?as and l = "length h" and rr = rr])
          show "getNode h' a =
              Some (Some (?as @ [length h]), name t, startTime t, endTime t, rr)"
            by (rule nodeh')
          show "rawAt h' rr (raw t)"
            using raw callh' by (auto simp: rawAt_def split: option.splits)
          show "length ?as = ?n" by (rule len)
          show "treeAt h' (?as ! i) (kids t ! i) (fp i)" if "i < ?n" for i
            by (rule subh'[OF that])
          show "treeAt h' (length h) m' G" by (rule tm')
          show "a \<notin> fp i" if "i < ?n" for i by (rule nota[OF that])
          show "a \<notin> G" using G2 alt lenh2 by auto
          show "fp i \<inter> fp k = {}" if "i < ?n" "k < ?n" "i \<noteq> k" for i k
            by (rule disj[OF that])
          show "fp i \<inter> G = {}" if "i < ?n" for i
            using below[OF that] G2 lenh2 by fastforce
        qed
        then have "treeAt h' a t' (F \<union> G)"
          unfolding t' F by simp
        moreover have "F \<union> G \<subseteq> F \<union> {length h..<length h'}"
          using G2 lenh2 lenh' by auto
        moreover have "\<forall>x<length h. x \<notin> F \<longrightarrow> h' ! x = h ! x"
          using nth' F by auto
        moreover have "length h \<le> length h'" using lenh2 lenh' by simp
        ultimately show ?thesis
          using run run' by (intro exI[of _ h'] exI[of _ "F \<union> G"]) auto
      next
        case (Some j)
        let ?m = "?as ! j"
        let ?tj = "kids t ! j"
        from Some have j: "j < ?n" by (simp add: findIndex_Some_iff)
        from Suc.prems(3) obtain tj' where
          tj': "addCallToTree parse ?tj c stk (Suc index) = Inr tj'"
          and t': "t' = withChildren t ((kids t)[j := tj'])"
          by (auto simp: addCallToTree_inner_match[OF lt' Some] split: sum.splits)
        have run: "addCallToTree_store parse h a call stk index =
            addCallToTree_store parse ?h1 ?m call stk (Suc index)"
          using store_inner_match[OF node call lt'] find Some by simp
        have call1': "getCall ?h1 call = Some c" using call call1 by simp
        from Suc.hyps(1)[OF d sub1[OF j] call1' tj'] obtain h' G where
          run': "addCallToTree_store parse ?h1 ?m call stk (Suc index) = Inr h'"
          and tm': "treeAt h' ?m tj' G"
          and G1: "fp j \<subseteq> G" and G2: "G \<subseteq> fp j \<union> {length ?h1..<length h'}"
          and lenh': "length ?h1 \<le> length h'"
          and frame: "\<forall>x<length ?h1. x \<notin> fp j \<longrightarrow> h' ! x = ?h1 ! x"
          by blast
        from lenh' have lenh: "length h \<le> length h'" by simp
        have fr: "h' ! x = ?h1 ! x" if "x < length h" "x \<notin> fp j" for x
          by (rule frame[rule_format]) (simp_all add: that)
        have nth': "h' ! x = h ! x" if "x < length h" "x \<noteq> a" "x \<notin> fp j" for x
          using fr[OF that(1,3)] that(2) by simp
        have nodeh': "getNode h' a = Some (Some ?as, name t, startTime t, endTime t, rr)"
        proof -
          from fr[OF alt nota[OF j]] have "h' ! a = ?h1 ! a" .
          with getNode_nth_eq[of a ?h1 h'] alt lenh' have "getNode h' a = getNode ?h1 a"
            by simp
          with node1 show ?thesis by simp
        qed
        have callh': "getCall h' k = Some c'" if "getCall h k = Some c'" for k c'
        proof -
          from that have k: "k < length h" by (simp add: getCall_Some)
          from treeAt_not_call[OF sub[OF j] that] have "k \<notin> fp j" .
          then have e: "h' ! k = ?h1 ! k" using k by (intro fr)
          from that call1 have "getCall ?h1 k = Some c'" by simp
          from getCall_nth_eq[OF this lenh' e] show ?thesis .
        qed
        have subh': "treeAt h' (?as ! i) (kids t ! i) (fp i)" if "i < ?n" "i \<noteq> j" for i
        proof (rule treeAt_frame[OF sub[OF that(1)]])
          show "\<forall>x\<in>fp i. getNode h' x = getNode h x"
          proof
            fix x assume x: "x \<in> fp i"
            from disj[OF that(1) j that(2)] x have "x \<notin> fp j" by auto
            moreover from below[OF that(1) x] nota[OF that(1)] x
            have "x < length h" "x \<noteq> a" by auto
            ultimately show "getNode h' x = getNode h x"
              using nth' lenh by (intro getNode_nth_eq) simp_all
          qed
          show "\<forall>k c. getCall h k = Some c \<longrightarrow> getCall h' k = Some c"
            using callh' by blast
        qed
        have "treeAt h' a (withChildren t ((kids t)[j := tj']))
            (insert a (\<Union>i<?n. (fp(j := G)) i))"
        proof (rule rebuild_update[where as = ?as and rr = rr])
          show "getNode h' a = Some (Some ?as, name t, startTime t, endTime t, rr)"
            by (rule nodeh')
          show "rawAt h' rr (raw t)"
            using raw callh' by (auto simp: rawAt_def split: option.splits)
          show "length ?as = ?n" by (rule len)
          show "j < ?n" by (rule j)
          show "treeAt h' (?as ! i) (kids t ! i) (fp i)" if "i < ?n" "i \<noteq> j" for i
            by (rule subh'[OF that])
          show "treeAt h' ?m tj' G" by (rule tm')
          show "a \<notin> fp i" if "i < ?n" for i by (rule nota[OF that])
          show "a \<notin> G" using G2 alt nota[OF j] by auto
          show "fp i \<inter> fp k = {}" if "i < ?n" "k < ?n" "i \<noteq> k" for i k
            by (rule disj[OF that])
          show "fp i \<inter> G = {}" if "i < ?n" "i \<noteq> j" for i
            using disj[OF that(1) j that(2)] below[OF that(1)] G2 by fastforce
        qed
        then have tree': "treeAt h' a t' (insert a (\<Union>i<?n. (fp(j := G)) i))"
          unfolding t' by simp
        have "F \<subseteq> insert a (\<Union>i<?n. (fp(j := G)) i)"
          unfolding F using G1 j by (auto split: if_splits)
        moreover have "insert a (\<Union>i<?n. (fp(j := G)) i) \<subseteq> F \<union> {length h..<length h'}"
          unfolding F using G2 j by (auto split: if_splits)
        moreover have "\<forall>x<length h. x \<notin> F \<longrightarrow> h' ! x = h ! x"
          using nth' F j by auto
        ultimately show ?thesis
          using run run' tree' lenh
          by (intro exI[of _ h'] exI[of _ "insert a (\<Union>i<?n. (fp(j := G)) i)"]) auto
      qed
    qed
  qed
qed

subsection \<open>The loop on the store\<close>

lemma calls_kept:
  assumes "treeAt h a t F" and "length h \<le> length h'"
    and "\<forall>x<length h. x \<notin> F \<longrightarrow> h' ! x = h ! x" and "getCall h k = Some c"
  shows "getCall h' k = Some c"
proof -
  from assms(4) have "k < length h" by (simp add: getCall_Some)
  moreover from treeAt_not_call[OF assms(1,4)] have "k \<notin> F" .
  ultimately have "h' ! k = h ! k" using assms(3) by simp
  from getCall_nth_eq[OF assms(4,2) this] show ?thesis .
qed

lemma addCalls_simulation:
  "treeAt h a t F \<Longrightarrow> list_all2 (\<lambda>k c. getCall h k = Some c) refs cs \<Longrightarrow>
   addCalls_store parse h a refs = Inr h' \<Longrightarrow>
   \<exists>t' F'. addCalls parse t cs = Inr t' \<and> treeAt h' a t' F'"
proof (induction refs arbitrary: cs h t F)
  case Nil
  then show ?case by auto
next
  case (Cons k refs)
  from Cons.prems(2) obtain c cs' where cs: "cs = c # cs'"
    and k: "getCall h k = Some c"
    and rest: "list_all2 (\<lambda>k c. getCall h k = Some c) refs cs'"
    by (auto simp: list_all2_Cons1)
  from Cons.prems(3) k obtain h1 where
    step: "addCallToTree_store parse h a k (stack c) 0 = Inr h1"
    and loop: "addCalls_store parse h1 a refs = Inr h'"
    by (auto split: sum.splits)
  from addCallToTree_store_Inr_index[OF step] have "0 < length (stack c)" .
  from addCallToTree_returns[OF this] obtain t1 where
    t1: "addCallToTree parse t c (stack c) 0 = Inr t1" by blast
  from simulation[OF Cons.prems(1) k t1] step obtain F1 where
    tree1: "treeAt h1 a t1 F1" and len: "length h \<le> length h1"
    and frame: "\<forall>x<length h. x \<notin> F \<longrightarrow> h1 ! x = h ! x"
    by auto
  have "list_all2 (\<lambda>k c. getCall h1 k = Some c) refs cs'"
    using rest calls_kept[OF Cons.prems(1) len frame]
    by (rule list_all2_mono)
  from Cons.IH[OF tree1 this loop] t1 cs show ?case by simp
qed

text \<open>
  C6. Two calls of \<^verbatim>\<open>createTreeFromCalls\<close> on the same record, from any two stores in
  which the record's calls hold the same invocations (the second store may be the
  one the first call left behind): when both return, the objects under the two roots
  form one and the same tree, with the same names, dates, invocations in \<^verbatim>\<open>raw\<close> and
  children in the same order; it is the tree of the function on values, and no other
  tree is held under either root.
\<close>

theorem build_deterministic:
  assumes "list_all2 (\<lambda>k c. getCall h1 k = Some c) (callRefs recordJSON) cs"
    and "list_all2 (\<lambda>k c. getCall h2 k = Some c) (callRefs recordJSON) cs"
    and "createTreeFromCalls_store parse h1 recordJSON = Inr (h1', root1)"
    and "createTreeFromCalls_store parse h2 recordJSON = Inr (h2', root2)"
  shows "\<exists>tree F1 F2.
     createTreeFromCalls parse \<lparr>perf = perfOf recordJSON, calls = cs\<rparr> = Inr tree \<and>
     treeAt h1' root1 tree F1 \<and> treeAt h2' root2 tree F2 \<and>
     (\<forall>t F. treeAt h1' root1 t F \<or> treeAt h2' root2 t F \<longrightarrow> t = tree)"
proof -
  let ?obj = "NodeObj (Some []) ''App''
      (Some (new_Date parse (start_time (perfOf recordJSON))))
      (Some (new_Date parse (end_time (perfOf recordJSON)))) None"
  let ?rec = "\<lparr>perf = perfOf recordJSON, calls = cs\<rparr>"
  have start: "treeAt (h @ [?obj]) (length h) (rootOf parse ?rec) {length h}"
    for h :: "'a store"
    by (rule treeAtI[where aso = "Some []" and rr = None and fp = "\<lambda>_. {}"])
       (simp_all add: rootOf_def getNode_def refsOf_def rawAt_def)
  have calls: "list_all2 (\<lambda>k c. getCall (h @ [?obj]) k = Some c) (callRefs recordJSON) cs"
    if "list_all2 (\<lambda>k c. getCall h k = Some c) (callRefs recordJSON) cs"
    for h :: "'a store"
    using that
    by (rule list_all2_mono) (auto simp: getCall_def nth_append split: if_splits)
  from assms(3) have run1: "addCalls_store parse (h1 @ [?obj]) (length h1) (callRefs recordJSON) = Inr h1'"
    and r1: "root1 = length h1"
    by (auto simp: createTreeFromCalls_store_def split: sum.splits)
  from assms(4) have run2: "addCalls_store parse (h2 @ [?obj]) (length h2) (callRefs recordJSON) = Inr h2'"
    and r2: "root2 = length h2"
    by (auto simp: createTreeFromCalls_store_def split: sum.splits)
  from addCalls_simulation[OF start calls[OF assms(1)] run1] obtain T1 F1 where
    T1: "addCalls parse (rootOf parse ?rec) cs = Inr T1" "treeAt h1' root1 T1 F1"
    unfolding r1 by blast
  from addCalls_simulation[OF start calls[OF assms(2)] run2] obtain T2 F2 where
    T2: "addCalls parse (rootOf parse ?rec) cs = Inr T2" "treeAt h2' root2 T2 F2"
    unfolding r2 by blast
  from T1(1) T2(1) have eq: "T2 = T1" by simp
  have "createTreeFromCalls parse ?rec = Inr T1"
    using T1(1) by (simp add: createTreeFromCalls_def)
  moreover have "\<forall>t F. treeAt h1' root1 t F \<or> treeAt h2' root2 t F \<longrightarrow> t = T1"
    using treeAt_unique[OF T1(2)] treeAt_unique[OF T2(2)[unfolded eq]] by blast
  ultimately show ?thesis using T1(2) T2(2) eq by blast
qed


lemma nestedStore_rerun:
  "createTreeFromCalls_store isoClock nestedStoreAfter nestedRecord =
     Inr (nestedStoreAfter @
          [NodeObj (Some [6]) ''App'' (Some (ValidDate 0)) (Some (ValidDate 10)) None,
           NodeObj (Some [7]) ''retriever'' (Some (ValidDate 0)) (Some (ValidDate 10)) (Some 0),
           NodeObj None ''get_context'' (Some (ValidDate 2)) (Some (ValidDate 8)) (Some 1)], 5)"
  by (simp add: createTreeFromCalls_store_def nestedStoreAfter_def nestedStore_def
      nestedRecord_def isoClock_def
      interval_def retrieverCall_def getContextCall_def frame_def
      addCallToTree_store.simps findMatchingRef_def stackAt_def nameOfCell_def refsOf_def
      matchesObj_def getNameFromCell_def getStartAndEndTimes_def truthy_def js_ge_def
      getNode_def getCall_def push_def)

theorem build_deterministic_witness:
  "list_all2 (\<lambda>k c. getCall nestedStore k = Some c) (callRefs nestedRecord)
     [retrieverCall, getContextCall] \<and>
   list_all2 (\<lambda>k c. getCall nestedStoreAfter k = Some c) (callRefs nestedRecord)
     [retrieverCall, getContextCall] \<and>
   createTreeFromCalls_store isoClock nestedStore nestedRecord = Inr (nestedStoreAfter, 2) \<and>
   (\<exists>tree F1 F2.
      createTreeFromCalls isoClock
        \<lparr>perf = perfOf nestedRecord, calls = [retrieverCall, getContextCall]\<rparr> = Inr tree \<and>
      treeAt nestedStoreAfter 2 tree F1 \<and>
      treeAt (nestedStoreAfter @
          [NodeObj (Some [6]) ''App'' (Some (ValidDate 0)) (Some (ValidDate 10)) None,
           NodeObj (Some [7]) ''retriever'' (Some (ValidDate 0)) (Some (ValidDate 10)) (Some 0),
           NodeObj None ''get_context'' (Some (ValidDate 2)) (Some (ValidDate 8)) (Some 1)])
        5 tree F2)"
proof -
  have a: "list_all2 (\<lambda>k c. getCall nestedStore k = Some c) (callRefs nestedRecord)
      [retrieverCall, getContextCall]"
    by (simp add: nestedStore_def nestedRecord_def getCall_def)
  have b: "list_all2 (\<lambda>k c. getCall nestedStoreAfter k = Some c) (callRefs nestedRecord)
      [retrieverCall, getContextCall]"
    by (simp add: nestedStoreAfter_def nestedStore_def nestedRecord_def getCall_def)
  from build_deterministic[OF a b nestedStore_run nestedStore_rerun] a b nestedStore_run
  show ?thesis by blast
qed

end
